theory Spec2Isabelle
  imports Main "HOL-Library.Word"
begin

section \<open>The swift-plus storage driver of keppel\<close>

text \<open>
  A shallow embedding of the \<^verbatim>\<open>swiftplus\<close> package: a storage driver that keeps
  file metadata (and small files) in two SQL tables and large files in an object store.
  Every driver function takes the state of both backends. A function that only reads
  returns a sum, a Go \<^verbatim>\<open>error\<close> on the \<open>Inl\<close> side; a function that writes returns
  the error, \<open>None\<close> for \<^verbatim>\<open>nil\<close>, with the state that it leaves, also when it fails.
  The two recursive functions that need not return (\<^verbatim>\<open>mkdirAll\<close>,
  \<^verbatim>\<open>deleteDownwards\<close>) are partial functions in the option monad, \<open>None\<close> meaning that
  the call does not return; the functions that call them return an option as well.
\<close>

subsection \<open>Go's standard library: package path, strings.Trim, hex, Sprintf\<close>

type_synonym byte = "8 word"
type_synonym bytes = "byte list"

definition slash :: char where
  "slash = CHR ''/''"

definition dot :: char where
  "dot = CHR ''.''"

text \<open>The inner loop of the \<^verbatim>\<open>..\<close> case of \<^verbatim>\<open>path.Clean\<close>:
  \<^verbatim>\<open>for out.w > dotdot && out.index(out.w) != '/' { out.w-- }\<close>; the buffer is
  \<open>buf\<close>, of which the first \<open>w\<close> bytes are the output.\<close>

fun backtrack :: "string \<Rightarrow> nat \<Rightarrow> nat \<Rightarrow> nat" where
  "backtrack buf dotdot 0 = 0"
| "backtrack buf dotdot (Suc w) =
     (if Suc w > dotdot \<and> buf ! Suc w \<noteq> slash then backtrack buf dotdot w else Suc w)"

text \<open>The main loop of \<^verbatim>\<open>path.Clean\<close>: \<open>inp\<close> is \<^verbatim>\<open>path[r:]\<close>, \<open>out\<close> the
  bytes written so far.\<close>

function clean_loop :: "bool \<Rightarrow> string \<Rightarrow> string \<Rightarrow> nat \<Rightarrow> string" where
  "clean_loop rooted [] out dotdot = out"
| "clean_loop rooted (c # cs) out dotdot =
     (if c = slash then clean_loop rooted cs out dotdot
      else if c = dot \<and> (cs = [] \<or> hd cs = slash) then clean_loop rooted cs out dotdot
      else if c = dot \<and> cs \<noteq> [] \<and> hd cs = dot \<and> (tl cs = [] \<or> hd (tl cs) = slash) then
        (if length out > dotdot then
           clean_loop rooted (tl cs) (take (backtrack out dotdot (length out - 1)) out) dotdot
         else if \<not> rooted then
           (let out' = (if out \<noteq> [] then out @ [slash] else out) @ [dot, dot]
            in clean_loop rooted (tl cs) out' (length out'))
         else clean_loop rooted (tl cs) out dotdot)
      else
        (let out' = (if rooted \<and> length out \<noteq> 1 \<or> \<not> rooted \<and> length out \<noteq> 0
                     then out @ [slash] else out)
         in clean_loop rooted (dropWhile (\<lambda>x. x \<noteq> slash) (c # cs))
              (out' @ takeWhile (\<lambda>x. x \<noteq> slash) (c # cs)) dotdot))"
  by pat_completeness auto
termination
proof (relation "measure (\<lambda>(rooted, inp, out, dotdot). length inp)")
  fix rooted :: bool and c :: char and cs out :: string and dotdot :: nat and x :: string
  assume "c \<noteq> slash"
  then have "dropWhile (\<lambda>x. x \<noteq> slash) (c # cs) = dropWhile (\<lambda>x. x \<noteq> slash) cs"
    by simp
  then show "((rooted, dropWhile (\<lambda>x. x \<noteq> slash) (c # cs),
               x @ takeWhile (\<lambda>x. x \<noteq> slash) (c # cs), dotdot),
              rooted, c # cs, out, dotdot)
             \<in> measure (\<lambda>(rooted, inp, out, dotdot). length inp)"
    using length_dropWhile_le [of "\<lambda>x. x \<noteq> slash" cs] by simp
qed (auto simp: less_Suc_eq_le intro: le_trans [OF length_tl [THEN eq_refl]])

definition Clean :: "string \<Rightarrow> string" where
  "Clean p =
     (if p = [] then ''.''
      else let rooted = (hd p = slash);
               out = (if rooted then clean_loop True (tl p) [slash] 1
                      else clean_loop False p [] 0)
           in if out = [] then ''.'' else out)"

text \<open>\<^verbatim>\<open>path.Split\<close>: the path up to and including its last slash, and the rest.\<close>

definition Split :: "string \<Rightarrow> string \<times> string" where
  "Split p = (rev (dropWhile (\<lambda>x. x \<noteq> slash) (rev p)),
              rev (takeWhile (\<lambda>x. x \<noteq> slash) (rev p)))"

definition Dir :: "string \<Rightarrow> string" where
  "Dir p = Clean (fst (Split p))"

definition Base :: "string \<Rightarrow> string" where
  "Base p =
     (if p = [] then ''.''
      else let p1 = rev (dropWhile (\<lambda>x. x = slash) (rev p));
               p2 = snd (Split p1)
           in if p2 = [] then ''/'' else p2)"

text \<open>\<^verbatim>\<open>path.Join\<close> at two elements.\<close>

definition Join :: "string \<Rightarrow> string \<Rightarrow> string" where
  "Join a b =
     (if a \<noteq> [] then Clean (a @ [slash] @ b)
      else if b \<noteq> [] then Clean b
      else [])"

text \<open>\<^verbatim>\<open>strings.Trim(s, "/")\<close>.\<close>

definition Trim_slash :: "string \<Rightarrow> string" where
  "Trim_slash s =
     rev (dropWhile (\<lambda>x. x = slash) (rev (dropWhile (\<lambda>x. x = slash) s)))"

text \<open>\<^verbatim>\<open>hex.EncodeToString\<close>.\<close>

definition hextable :: string where
  "hextable = ''0123456789abcdef''"

definition EncodeToString :: "bytes \<Rightarrow> string" where
  "EncodeToString bs =
     concat (map (\<lambda>b. [hextable ! unat (drop_bit 4 b), hextable ! unat (take_bit 4 b)]) bs)"

text \<open>\<^verbatim>\<open>fmt.Sprintf("%016d", i)\<close>: decimal, padded with zeros to sixteen characters,
  the sign first.\<close>

fun decimal :: "nat \<Rightarrow> string" where
  "decimal n =
     (if n < 10 then [''0123456789'' ! n]
      else decimal (n div 10) @ [''0123456789'' ! (n mod 10)])"

declare decimal.simps [simp del]

definition Sprintf_016d :: "int \<Rightarrow> string" where
  "Sprintf_016d i =
     (if i < 0 then
        (let ds = decimal (nat (- i)) in CHR ''-'' # replicate (15 - length ds) CHR ''0'' @ ds)
      else
        (let ds = decimal (nat i) in replicate (16 - length ds) CHR ''0'' @ ds))"

subsection \<open>Data model\<close>

text \<open>The errors a driver function can return. \<open>RandError\<close> is the error of
  \<^verbatim>\<open>crypto/rand\<close>, \<open>SqlError\<close> an error of a statement (a violated key or
  column range of the schema). A query that finds no row (\<^verbatim>\<open>sql.ErrNoRows\<close>) is
  the \<open>None\<close> of \<open>readFileInfo\<close>. Connection failures of the two backends are not
  modelled: a statement or an object-store call fails only for a reason that the state
  determines.\<close>

datatype error =
    PathNotFoundError string
  | ErrUnsupportedMethod
  | errCancelled
  | errClosed
  | errCommitted
  | RandError
  | SqlError string

definition maxInlineSizeBytes :: nat where
  "maxInlineSizeBytes = 256"

text \<open>A row of the table \<^verbatim>\<open>files\<close>. A time is a number of seconds since Go's
  zero time, so that \<^verbatim>\<open>IsZero\<close> is \<open>= 0\<close>.\<close>

record fileInfo =
  DirName :: string
  BaseName :: string
  SizeBytes :: int
  ModifiedAt :: int
  Contents :: bytes
  Location :: string

text \<open>A row of the table \<^verbatim>\<open>segments\<close>, with the object prefix that
  \<^verbatim>\<open>readSegmentInfo\<close> adds.\<close>

record plusSegment =
  Prefix :: string
  seg_Location :: string
  Number :: "64 word"
  seg_SizeBytes :: "64 word"
  Hash :: string

record segmentRow =
  row_location :: string
  row_number :: int
  row_size_bytes :: int
  row_hash :: string

text \<open>An object of the object store: a plain object, or a manifest that names the
  objects it is composed of.\<close>

datatype object = Plain bytes | Manifest "string list"

text \<open>The state that a \<^verbatim>\<open>plusDriver\<close> reaches through its two handles: the two
  tables of the database (rows in the order of their insertion), the objects of the
  container, the number of \<^verbatim>\<open>Write\<close> calls that the object store has received, the
  configuration of the swift interface, the bytes that \<^verbatim>\<open>crypto/rand\<close> will
  deliver, and the clock.\<close>

record plusDriver =
  files :: "fileInfo list"
  segments :: "segmentRow list"
  objects :: "string \<rightharpoonup> object"
  writes :: nat
  ObjectPrefix :: string
  ChunkSize :: nat
  hash_of :: "bytes \<Rightarrow> string"
  temp_url :: "string \<Rightarrow> (string \<times> string) list \<Rightarrow> error + string"
  entropy :: bytes
  clock :: int

text \<open>The error that a function returns (\<open>None\<close> is Go's \<^verbatim>\<open>nil\<close>) and the state
  it leaves, also when it fails.\<close>

type_synonym outcome = "error option \<times> plusDriver"

definition prependPrefix :: "string \<Rightarrow> string \<Rightarrow> string" where
  "prependPrefix pre fullPath =
     (if pre = [] then Trim_slash fullPath else pre @ ''/'' @ Trim_slash fullPath)"

definition plusRandLocation :: "plusDriver \<Rightarrow> (error + string) \<times> plusDriver" where
  "plusRandLocation s =
     (if length (entropy s) < 8 then (Inl RandError, s)
      else (Inr (EncodeToString (take 8 (entropy s))), s\<lparr>entropy := drop 8 (entropy s)\<rparr>))"

fun setReportedPath :: "error \<Rightarrow> string \<Rightarrow> error" where
  "setReportedPath (PathNotFoundError _) path = PathNotFoundError path"
| "setReportedPath err path = err"

definition Path :: "fileInfo \<Rightarrow> string" where
  "Path fi = Join (DirName fi) (BaseName fi)"

definition IsDir :: "fileInfo \<Rightarrow> bool" where
  "IsDir fi \<longleftrightarrow> SizeBytes fi < 0"

definition fi_ObjectPath :: "fileInfo \<Rightarrow> string" where
  "fi_ObjectPath fi = Location fi @ ''/content''"

definition seg_ObjectPath :: "plusSegment \<Rightarrow> string" where
  "seg_ObjectPath sg =
     prependPrefix (Prefix sg) (seg_Location sg) @ ''/'' @ Sprintf_016d (sint (Number sg))"

subsection \<open>The object store\<close>

text \<open>Modelled from the spec: the swift interface (\<^verbatim>\<open>p.swift\<close>) is not among the
  sources. Section 6 of the specification gives its operations: \<^verbatim>\<open>write\<close> stores
  the bytes under the object path and returns a hash; \<^verbatim>\<open>read\<close> returns the bytes
  of an object from an offset, and a manifest is read back as one object, the
  concatenation of its segments in their order; \<^verbatim>\<open>deleteAll\<close> removes every
  object whose name begins with the prefix; \<^verbatim>\<open>writeManifest\<close> composes an object
  of the ordered segments; \<^verbatim>\<open>makeTemporaryURL\<close> returns a URL. A read of an
  object that is absent is the not-found error of the store, which names the object.\<close>

definition swift_Write :: "plusDriver \<Rightarrow> string \<Rightarrow> bytes \<Rightarrow> string \<times> plusDriver" where
  "swift_Write s name buf =
     (hash_of s buf, s\<lparr>objects := (objects s)(name \<mapsto> Plain buf), writes := Suc (writes s)\<rparr>)"

fun read_parts :: "(string \<rightharpoonup> object) \<Rightarrow> string list \<Rightarrow> error + bytes" where
  "read_parts m [] = Inr []"
| "read_parts m (n # ns) =
     (case m n of
        Some (Plain b) \<Rightarrow>
          (case read_parts m ns of Inl e \<Rightarrow> Inl e | Inr bs \<Rightarrow> Inr (b @ bs))
      | _ \<Rightarrow> Inl (PathNotFoundError n))"

definition swift_Reader :: "plusDriver \<Rightarrow> string \<Rightarrow> nat \<Rightarrow> error + bytes" where
  "swift_Reader s name offset =
     (case objects s name of
        None \<Rightarrow> Inl (PathNotFoundError name)
      | Some (Plain b) \<Rightarrow> Inr (drop offset b)
      | Some (Manifest ns) \<Rightarrow>
          (case read_parts (objects s) ns of Inl e \<Rightarrow> Inl e | Inr b \<Rightarrow> Inr (drop offset b)))"

definition swift_DeleteAll :: "plusDriver \<Rightarrow> string \<Rightarrow> plusDriver" where
  "swift_DeleteAll s pre =
     s\<lparr>objects := (\<lambda>n. if take (length pre) n = pre then None else objects s n)\<rparr>"

definition swift_WriteSLO :: "plusDriver \<Rightarrow> string \<Rightarrow> plusSegment list \<Rightarrow> plusDriver" where
  "swift_WriteSLO s name segs =
     s\<lparr>objects := (objects s)(name \<mapsto> Manifest (map seg_ObjectPath segs))\<rparr>"

definition swift_MakeTempURL ::
    "plusDriver \<Rightarrow> string \<Rightarrow> (string \<times> string) list \<Rightarrow> error + string" where
  "swift_MakeTempURL s name options = temp_url s name options"

subsection \<open>The statements on the database\<close>

definition has_key :: "string \<Rightarrow> string \<Rightarrow> fileInfo \<Rightarrow> bool" where
  "has_key d b r \<longleftrightarrow> DirName r = d \<and> BaseName r = b"

text \<open>\<^verbatim>\<open>SELECT ... FROM files WHERE dirname = $1 AND basename = $2\<close>\<close>

definition select_file :: "plusDriver \<Rightarrow> string \<Rightarrow> string \<Rightarrow> fileInfo option" where
  "select_file s d b = find (has_key d b) (files s)"

text \<open>\<^verbatim>\<open>SELECT ... FROM files WHERE dirname = $1\<close>\<close>

definition select_children :: "plusDriver \<Rightarrow> string \<Rightarrow> fileInfo list" where
  "select_children s d = filter (\<lambda>r. DirName r = d) (files s)"

text \<open>\<^verbatim>\<open>INSERT INTO files ... ON CONFLICT (dirname, basename) DO UPDATE SET ...\<close>\<close>

definition upsert_file :: "plusDriver \<Rightarrow> fileInfo \<Rightarrow> plusDriver" where
  "upsert_file s fi =
     (if select_file s (DirName fi) (BaseName fi) = None
      then s\<lparr>files := files s @ [fi]\<rparr>
      else s\<lparr>files := map (\<lambda>r. if has_key (DirName fi) (BaseName fi) r then fi else r) (files s)\<rparr>)"

text \<open>\<^verbatim>\<open>INSERT INTO files ... VALUES ($1,$2,-1,NOW(),'','') ON CONFLICT (dirname, basename) DO NOTHING\<close>\<close>

definition insert_dir :: "plusDriver \<Rightarrow> string \<Rightarrow> string \<Rightarrow> plusDriver" where
  "insert_dir s d b =
     (if select_file s d b = None
      then s\<lparr>files := files s @
             [\<lparr>DirName = d, BaseName = b, SizeBytes = - 1, ModifiedAt = clock s,
               Contents = [], Location = []\<rparr>]\<rparr>
      else s)"

text \<open>\<^verbatim>\<open>DELETE FROM files WHERE dirname = $1 AND basename = $2\<close>\<close>

definition delete_file :: "plusDriver \<Rightarrow> string \<Rightarrow> string \<Rightarrow> plusDriver" where
  "delete_file s d b = s\<lparr>files := filter (\<lambda>r. \<not> has_key d b r) (files s)\<rparr>"

text \<open>\<^verbatim>\<open>UPDATE files SET dirname = $1, basename = $2 WHERE dirname = $3 AND basename = $4\<close>;
  the primary key refuses the update when it moves a row onto the key of another row.\<close>

definition update_key :: "plusDriver \<Rightarrow> string \<Rightarrow> string \<Rightarrow> string \<Rightarrow> string \<Rightarrow> outcome" where
  "update_key s d' b' d b =
     (if select_file s d b \<noteq> None \<and> select_file s d' b' \<noteq> None \<and> (d', b') \<noteq> (d, b)
      then (Some (SqlError ''duplicate key value violates unique constraint''), s)
      else (None, s\<lparr>files :=
              map (\<lambda>r. if has_key d b r then r\<lparr>DirName := d', BaseName := b'\<rparr> else r) (files s)\<rparr>))"

text \<open>\<^verbatim>\<open>INSERT INTO segments (location, number, size_bytes, hash) VALUES ($1, $2, $3, $4)\<close>;
  the column \<^verbatim>\<open>number\<close> is an \<^verbatim>\<open>INT\<close>, the column \<^verbatim>\<open>size_bytes\<close> a
  \<^verbatim>\<open>BIGINT\<close>, and (location, number) is the primary key.\<close>

definition insert_segment :: "plusDriver \<Rightarrow> plusSegment \<Rightarrow> outcome" where
  "insert_segment s sg =
     (if uint (Number sg) > 2147483647 \<or> uint (seg_SizeBytes sg) > 9223372036854775807
      then (Some (SqlError ''value out of range''), s)
      else if \<exists>r \<in> set (segments s).
                row_location r = seg_Location sg \<and> row_number r = uint (Number sg)
      then (Some (SqlError ''duplicate key value violates unique constraint''), s)
      else (None, s\<lparr>segments := segments s @
              [\<lparr>row_location = seg_Location sg, row_number = uint (Number sg),
                row_size_bytes = uint (seg_SizeBytes sg), row_hash = Hash sg\<rparr>]\<rparr>))"

subsection \<open>Reading and writing rows\<close>

text \<open>\<open>None\<close> is \<^verbatim>\<open>sql.ErrNoRows\<close>. The row that is found has the key that the
  function has put into \<^verbatim>\<open>fi.DirName\<close> and \<^verbatim>\<open>fi.BaseName\<close>.\<close>

definition readFileInfo :: "plusDriver \<Rightarrow> string \<Rightarrow> fileInfo option" where
  "readFileInfo s fullPath = select_file s (Dir fullPath) (Base fullPath)"

text \<open>What \<^verbatim>\<open>readFileInfo\<close> leaves in \<^verbatim>\<open>fi\<close> when it finds no row.\<close>

definition no_row :: "string \<Rightarrow> fileInfo" where
  "no_row fullPath =
     \<lparr>DirName = Dir fullPath, BaseName = Base fullPath, SizeBytes = 0, ModifiedAt = 0,
      Contents = [], Location = []\<rparr>"

partial_function (option) mkdirAll :: "plusDriver \<Rightarrow> string \<Rightarrow> outcome option" where
  "mkdirAll s fullPath =
     (if fullPath = ''/'' \<or> fullPath = [] then Some (None, s)
      else mkdirAll (insert_dir s (Dir fullPath) (Base fullPath)) (Dir fullPath))"

declare mkdirAll.simps [code]

definition writeFileInfo :: "plusDriver \<Rightarrow> fileInfo \<Rightarrow> outcome option" where
  "writeFileInfo s fi =
     (let fi = (if ModifiedAt fi = 0 then fi\<lparr>ModifiedAt := clock s\<rparr> else fi)
      in mkdirAll (upsert_file s fi) (DirName fi))"

text \<open>\<^verbatim>\<open>SELECT number, size_bytes, hash FROM segments WHERE location = $1 ORDER BY number\<close>,
  each row scanned into unsigned fields.\<close>

definition readSegmentInfo :: "plusDriver \<Rightarrow> string \<Rightarrow> error + plusSegment list" where
  "readSegmentInfo s loc =
     (if loc = [] then Inr []
      else let rows = sort_key row_number (filter (\<lambda>r. row_location r = loc) (segments s))
           in if \<exists>r \<in> set rows. row_number r < 0 \<or> row_size_bytes r < 0
              then Inl (SqlError ''converting driver.Value type int64 to a uint64'')
              else Inr (map (\<lambda>r. \<lparr>Prefix = ObjectPrefix s, seg_Location = loc,
                                   Number = word_of_int (row_number r),
                                   seg_SizeBytes = word_of_int (row_size_bytes r),
                                   Hash = row_hash r\<rparr>) rows))"

subsection \<open>The storage driver\<close>

definition GetContent :: "plusDriver \<Rightarrow> string \<Rightarrow> error + bytes" where
  "GetContent s fullPath =
     (let fi = (case readFileInfo s fullPath of None \<Rightarrow> no_row fullPath | Some fi \<Rightarrow> fi)
      in if readFileInfo s fullPath = None \<or> IsDir fi then Inl (PathNotFoundError fullPath)
         else if SizeBytes fi = 0 then Inr []
         else if length (Contents fi) > 0 then Inr (Contents fi)
         else (case swift_Reader s (prependPrefix (ObjectPrefix s) (fi_ObjectPath fi)) 0 of
                 Inl e \<Rightarrow> Inl (setReportedPath e (Path fi))
               | Inr b \<Rightarrow> Inr b))"

definition deleteBlobs :: "plusDriver \<Rightarrow> fileInfo \<Rightarrow> outcome" where
  "deleteBlobs s fi =
     (if Location fi = [] then (None, s)
      else (None, swift_DeleteAll s (prependPrefix (ObjectPrefix s) (Location fi) @ ''/'')))"

definition PutContent :: "plusDriver \<Rightarrow> string \<Rightarrow> bytes \<Rightarrow> outcome option" where
  "PutContent s fullPath contents =
     (case (case readFileInfo s fullPath of Some fi \<Rightarrow> deleteBlobs s fi | None \<Rightarrow> (None, s)) of
        (Some e, s1) \<Rightarrow> Some (Some e, s1)
      | (None, s1) \<Rightarrow>
          (let fi = \<lparr>DirName = Dir fullPath, BaseName = Base fullPath,
                     SizeBytes = int (length contents), ModifiedAt = 0,
                     Contents = contents, Location = []\<rparr>;
               uploadToSwift = (length contents > maxInlineSizeBytes)
           in case (if uploadToSwift
                    then (case plusRandLocation s1 of
                            (Inl e, s2) \<Rightarrow> (Inl e, s2)
                          | (Inr loc, s2) \<Rightarrow> (Inr (fi\<lparr>Contents := [], Location := loc\<rparr>), s2))
                    else (Inr fi, s1)) of
                (Inl e, s2) \<Rightarrow> Some (Some e, s2)
              | (Inr fi, s2) \<Rightarrow>
                  (case writeFileInfo s2 fi of
                     None \<Rightarrow> None
                   | Some (Some e, s3) \<Rightarrow> Some (Some e, s3)
                   | Some (None, s3) \<Rightarrow>
                       if \<not> uploadToSwift then Some (None, s3)
                       else (case swift_Write s3
                                    (prependPrefix (ObjectPrefix s3) (fi_ObjectPath fi)) contents of
                               (h, s4) \<Rightarrow> Some (None, s4)))))"

text \<open>The descriptor that \<^verbatim>\<open>Stat\<close> makes up for the root; its time is
  \<^verbatim>\<open>time.Unix(0, 0)\<close>.\<close>

definition root_info :: fileInfo where
  "root_info =
     \<lparr>DirName = ''/'', BaseName = ''/'', SizeBytes = - 1, ModifiedAt = 62135596800,
      Contents = [], Location = []\<rparr>"

definition Stat :: "plusDriver \<Rightarrow> string \<Rightarrow> error + fileInfo" where
  "Stat s fullPath =
     (if fullPath = ''/'' then Inr root_info
      else case readFileInfo s fullPath of
             None \<Rightarrow> Inl (PathNotFoundError fullPath)
           | Some fi \<Rightarrow> Inr fi)"

definition List_paths :: "plusDriver \<Rightarrow> string \<Rightarrow> error + string list" where
  "List_paths s fullPath =
     Inr (map (\<lambda>r. Join fullPath (BaseName r)) (select_children s fullPath))"

text \<open>\<^verbatim>\<open>if err != nil { return err }\<close> after a call that changes the state:
  the rest runs in the state that the call has left.\<close>

definition on_success :: "outcome option \<Rightarrow> (plusDriver \<Rightarrow> outcome option) \<Rightarrow> outcome option" where
  "on_success m k =
     (case m of
        None \<Rightarrow> None
      | Some (Some e, s') \<Rightarrow> Some (Some e, s')
      | Some (None, s') \<Rightarrow> k s')"

lemma on_success_mono [partial_function_mono]:
  assumes "mono_option A" and "\<And>s. mono_option (\<lambda>f. B f s)"
  shows "mono_option (\<lambda>f. on_success (A f) (B f))"
proof -
  have eq: "(\<lambda>f. on_success (A f) (B f)) =
    (\<lambda>f. Option.bind (A f)
       (\<lambda>res. case res of (Some e, s') \<Rightarrow> Some (Some e, s') | (None, s') \<Rightarrow> B f s'))"
    by (auto simp: fun_eq_iff on_success_def split: option.splits Option.bind_splits)
  show ?thesis
    unfolding eq
  proof (rule bind_mono [OF assms(1)])
    fix res :: outcome
    obtain err s' where res: "res = (err, s')"
      by (cases res)
    show "mono_option (\<lambda>f. case res of (Some e, s') \<Rightarrow> Some (Some e, s') | (None, s') \<Rightarrow> B f s')"
      unfolding res by (cases err) (simp_all add: assms(2) option.const_mono)
  qed
qed

text \<open>The loop over the rows of a query: it stops at the first error, and does not
  return when a call in it does not.\<close>

fun for_rows :: "(plusDriver \<Rightarrow> fileInfo \<Rightarrow> outcome option) \<Rightarrow> fileInfo list \<Rightarrow>
    plusDriver \<Rightarrow> outcome option" where
  "for_rows f [] s = Some (None, s)"
| "for_rows f (r # rs) s = on_success (f s r) (for_rows f rs)"

lemma for_rows_mono [partial_function_mono]:
  assumes "\<And>s r. mono_option (\<lambda>f. B f s r)"
  shows "mono_option (\<lambda>f. for_rows (B f) rs s)"
proof (induction rs arbitrary: s)
  case Nil
  show ?case by (simp add: option.const_mono)
next
  case (Cons r rs)
  show ?case
    unfolding for_rows.simps
    by (rule on_success_mono) (auto intro: assms Cons.IH)
qed

text \<open>The rows of the query are those at the time of the query; each is deleted in the
  state that the deletions before it have left.\<close>

partial_function (option) deleteDownwards :: "plusDriver \<Rightarrow> fileInfo \<Rightarrow> outcome option" where
  "deleteDownwards s fi =
     on_success (Some (deleteBlobs s fi)) (\<lambda>s1.
       on_success
         (if IsDir fi
          then for_rows (\<lambda>s' fiSub. deleteDownwards s' fiSub) (select_children s1 (Path fi)) s1
          else Some (None, s1))
         (\<lambda>s2. Some (None, delete_file s2 (DirName fi) (BaseName fi))))"

declare deleteDownwards.simps [code]

definition Move :: "plusDriver \<Rightarrow> string \<Rightarrow> string \<Rightarrow> outcome option" where
  "Move s sourcePath destPath =
     (case readFileInfo s sourcePath of
        None \<Rightarrow> Some (Some (PathNotFoundError sourcePath), s)
      | Some fi1 \<Rightarrow>
          on_success
            (case readFileInfo s destPath of
               Some fi2 \<Rightarrow> deleteDownwards s fi2
             | None \<Rightarrow> Some (None, s))
            (\<lambda>s1. on_success
               (Some (update_key s1 (Dir destPath) (Base destPath) (DirName fi1) (BaseName fi1)))
               (\<lambda>s2. mkdirAll s2 (Dir destPath))))"

definition Delete :: "plusDriver \<Rightarrow> string \<Rightarrow> outcome option" where
  "Delete s fullPath =
     (case readFileInfo s fullPath of
        None \<Rightarrow> Some (None, s)
      | Some fi \<Rightarrow> deleteDownwards s fi)"

definition URLFor :: "plusDriver \<Rightarrow> string \<Rightarrow> (string \<times> string) list \<Rightarrow> error + string" where
  "URLFor s fullPath options =
     (case readFileInfo s fullPath of
        None \<Rightarrow> Inl (PathNotFoundError fullPath)
      | Some fi \<Rightarrow>
          if Location fi = [] then Inl ErrUnsupportedMethod
          else swift_MakeTempURL s (prependPrefix (ObjectPrefix s) (fi_ObjectPath fi)) options)"

subsection \<open>The writer\<close>

record plusWriter =
  cancelled :: bool
  closed :: bool
  committed :: bool
  fullPath :: string
  location :: string
  w_segments :: "plusSegment list"

definition newPlusWriter ::
    "plusDriver \<Rightarrow> string \<Rightarrow> bool \<Rightarrow> ((error + plusWriter) \<times> plusDriver) option" where
  "newPlusWriter s path appendFlag =
     (let fi = (case readFileInfo s path of None \<Rightarrow> no_row path | Some fi \<Rightarrow> fi);
          exists = (readFileInfo s path \<noteq> None)
      in case (if exists \<and> \<not> appendFlag then deleteDownwards s fi else Some (None, s)) of
           None \<Rightarrow> None
         | Some (Some e, s1) \<Rightarrow> Some (Inl e, s1)
         | Some (None, s1) \<Rightarrow>
             (let exists = (exists \<and> appendFlag)
              in case (if \<not> exists \<or> Location fi = [] then plusRandLocation s1
                       else (Inr (Location fi), s1)) of
                   (Inl e, s2) \<Rightarrow> Some (Inl e, s2)
                 | (Inr loc, s2) \<Rightarrow>
                     (case (if exists \<and> appendFlag then readSegmentInfo s2 loc else Inr []) of
                        Inl e \<Rightarrow> Some (Inl e, s2)
                      | Inr segs \<Rightarrow>
                          Some (Inr \<lparr>cancelled = False, closed = False, committed = False,
                                     fullPath = path, location = loc, w_segments = segs\<rparr>,
                                s2))))"

text \<open>\<^verbatim>\<open>Write\<close> returns the number of bytes and the error.\<close>

definition Write :: "plusWriter \<Rightarrow> plusDriver \<Rightarrow> bytes \<Rightarrow> (nat \<times> error option) \<times> plusWriter \<times> plusDriver" where
  "Write w s buf =
     (let sg = \<lparr>Prefix = ObjectPrefix s, seg_Location = location w,
                Number = (if length (w_segments w) > 0 then Number (last (w_segments w)) + 1 else 1),
                seg_SizeBytes = of_nat (length buf), Hash = []\<rparr>
      in case swift_Write s (seg_ObjectPath sg) buf of
           (h, s1) \<Rightarrow>
             (let sg = sg\<lparr>Hash := h\<rparr>;
                  w1 = w\<lparr>w_segments := w_segments w @ [sg]\<rparr>
              in case insert_segment s1 sg of
                   (err, s2) \<Rightarrow> ((length buf, err), w1, s2)))"

text \<open>The sum is taken in \<^verbatim>\<open>int64\<close>.\<close>

definition Size :: "plusWriter \<Rightarrow> int" where
  "Size w = sint (foldl (\<lambda>n sg. n + seg_SizeBytes sg) 0 (w_segments w))"

definition Commit :: "plusWriter \<Rightarrow> plusDriver \<Rightarrow> (error option \<times> plusWriter \<times> plusDriver) option" where
  "Commit w s =
     (if closed w then Some (Some errClosed, w, s)
      else if cancelled w then Some (Some errCancelled, w, s)
      else if committed w then Some (Some errCommitted, w, s)
      else
        (let fi = \<lparr>DirName = Dir (fullPath w), BaseName = Base (fullPath w), SizeBytes = Size w,
                   ModifiedAt = 0, Contents = [], Location = location w\<rparr>;
             s1 = swift_WriteSLO s (prependPrefix (ObjectPrefix s) (fi_ObjectPath fi)) (w_segments w)
         in case writeFileInfo s1 fi of
              None \<Rightarrow> None
            | Some (Some e, s2) \<Rightarrow> Some (Some e, w, s2)
            | Some (None, s2) \<Rightarrow> Some (None, w\<lparr>committed := True\<rparr>, s2)))"

definition Close :: "plusWriter \<Rightarrow> plusDriver \<Rightarrow> (error option \<times> plusWriter \<times> plusDriver) option" where
  "Close w s =
     (if closed w then Some (Some errClosed, w, s)
      else if \<not> committed w \<and> \<not> cancelled w then Commit w s
      else Some (None, w, s))"

definition Cancel :: "plusWriter \<Rightarrow> plusDriver \<Rightarrow> (error option \<times> plusWriter \<times> plusDriver) option" where
  "Cancel w s =
     (if closed w then Some (Some errClosed, w, s)
      else
        (let w1 = w\<lparr>cancelled := True\<rparr>
         in case Delete s (fullPath w1) of
              None \<Rightarrow> None
            | Some (err, s1) \<Rightarrow> Some (err, w1\<lparr>w_segments := []\<rparr>, s1)))"

subsection \<open>A driver to run\<close>

text \<open>An empty database and container, the object prefix \<^verbatim>\<open>pre\<close>, and sixteen
  bytes of randomness.\<close>

definition empty_driver :: plusDriver where
  "empty_driver =
     \<lparr>files = [], segments = [], objects = Map.empty, writes = 0, ObjectPrefix = ''pre'',
      ChunkSize = 4, hash_of = (\<lambda>b. ''etag''),
      temp_url = (\<lambda>n opts. Inr (''https://swift/'' @ n)),
      entropy = [1, 2, 3, 4, 5, 6, 7, 8, 9, 10, 11, 12, 13, 14, 15, 16], clock = 100\<rparr>"

text \<open>The state that a call has left.\<close>

definition state_of :: "(error option \<times> plusDriver) option \<Rightarrow> plusDriver" where
  "state_of r = snd (the r)"

definition succeeded :: "(error option \<times> plusDriver) option \<Rightarrow> bool" where
  "succeeded r \<longleftrightarrow> (case r of Some (None, s) \<Rightarrow> True | _ \<Rightarrow> False)"

text \<open>A writer with the state it works on: the writer that \<^verbatim>\<open>newPlusWriter\<close>
  returns, and what \<^verbatim>\<open>Write\<close>, \<^verbatim>\<open>Cancel\<close> and \<^verbatim>\<open>Commit\<close> leave.\<close>

definition new_writer :: "plusDriver \<Rightarrow> string \<Rightarrow> bool \<Rightarrow> plusWriter \<times> plusDriver" where
  "new_writer s p appendFlag =
     (projr (fst (the (newPlusWriter s p appendFlag))), snd (the (newPlusWriter s p appendFlag)))"

definition after_write :: "plusWriter \<times> plusDriver \<Rightarrow> bytes \<Rightarrow> plusWriter \<times> plusDriver" where
  "after_write ws buf = snd (Write (fst ws) (snd ws) buf)"

definition after_cancel :: "plusWriter \<times> plusDriver \<Rightarrow> plusWriter \<times> plusDriver" where
  "after_cancel ws = snd (the (Cancel (fst ws) (snd ws)))"

definition after_commit :: "plusWriter \<times> plusDriver \<Rightarrow> plusWriter \<times> plusDriver" where
  "after_commit ws = snd (the (Commit (fst ws) (snd ws)))"

text \<open>A writer on \<^verbatim>\<open>/a/b\<close> after one \<^verbatim>\<open>Write\<close> and \<^verbatim>\<open>Cancel\<close>, and one
  after one \<^verbatim>\<open>Write\<close> and \<^verbatim>\<open>Commit\<close>.\<close>

definition cancelled_writer :: "plusWriter \<times> plusDriver" where
  "cancelled_writer = after_cancel (after_write (new_writer empty_driver ''/a/b'' False) [1])"

definition committed_writer :: "plusWriter \<times> plusDriver" where
  "committed_writer = after_commit (after_write (new_writer empty_driver ''/a/b'' False) [1])"

text \<open>The state after a writer on \<^verbatim>\<open>/a/b\<close> has written two segments and has
  committed.\<close>

definition segmented_driver :: plusDriver where
  "segmented_driver =
     snd (after_commit
            (after_write (after_write (new_writer empty_driver ''/a/b'' False) [1, 2]) [3]))"

text \<open>The state in which \<^verbatim>\<open>PutContent\<close> writes the row: the blobs of a row that
  was there are deleted.\<close>

definition put_pre :: "plusDriver \<Rightarrow> string \<Rightarrow> plusDriver" where
  "put_pre s p = (case readFileInfo s p of Some fi \<Rightarrow> snd (deleteBlobs s fi) | None \<Rightarrow> s)"

subsection \<open>Rooted paths\<close>

text \<open>The paths that the driver is given begin with a slash.\<close>

definition rooted_path :: "string \<Rightarrow> bool" where
  "rooted_path p \<longleftrightarrow> p \<noteq> [] \<and> hd p = slash"

text \<open>Two measures for the loop of \<^verbatim>\<open>path.Clean\<close>: the slash that the next
  element will need, and the slash at the end of the input that will not be written.\<close>

definition pending :: "string \<Rightarrow> string \<Rightarrow> nat" where
  "pending inp out = (if inp \<noteq> [] \<and> hd inp \<noteq> slash \<and> length out \<noteq> 1 then 1 else 0)"

definition closing :: "string \<Rightarrow> nat" where
  "closing inp = (if inp \<noteq> [] \<and> last inp = slash then 1 else 0)"

subsection \<open>Predicates on states\<close>

text \<open>A directory marker, as \<^verbatim>\<open>mkdirAll\<close> inserts it.\<close>

definition is_marker :: "fileInfo \<Rightarrow> bool" where
  "is_marker r \<longleftrightarrow> SizeBytes r = - 1 \<and> Contents r = [] \<and> Location r = []"


text \<open>A state that differs from another by rows and objects that are deleted.\<close>

definition shrinks :: "plusDriver \<Rightarrow> plusDriver \<Rightarrow> bool" where
  "shrinks s s' \<longleftrightarrow>
     (\<exists>P. files s' = filter P (files s)) \<and>
     (\<forall>n. objects s' n = None \<or> objects s' n = objects s n) \<and>
     segments s' = segments s \<and> writes s' = writes s \<and> ObjectPrefix s' = ObjectPrefix s \<and>
     ChunkSize s' = ChunkSize s \<and> hash_of s' = hash_of s \<and> temp_url s' = temp_url s \<and>
     entropy s' = entropy s \<and> clock s' = clock s"

text \<open>What a call of \<^verbatim>\<open>deleteDownwards\<close> that returns has done.\<close>

definition deleted :: "plusDriver \<Rightarrow> fileInfo \<Rightarrow> outcome \<Rightarrow> bool" where
  "deleted s fi y \<longleftrightarrow>
     fst y = None \<and> shrinks s (snd y) \<and> select_file (snd y) (DirName fi) (BaseName fi) = None"

text \<open>The ancestors of a path: its directory, the directory of that, and so on.\<close>

inductive ancestor :: "string \<Rightarrow> string \<Rightarrow> bool" where
  parent: "ancestor (Dir p) p"
| above: "ancestor a (Dir p) \<Longrightarrow> ancestor a p"

text \<open>Two small files, \<^verbatim>\<open>/a\<close> and \<^verbatim>\<open>/s\<close>.\<close>

definition two_files :: plusDriver where
  "two_files = state_of (PutContent (state_of (PutContent empty_driver ''/a'' [1])) ''/s'' [2])"

text \<open>A file in a directory, \<^verbatim>\<open>/d/f\<close>.\<close>

definition nested_file :: plusDriver where
  "nested_file = state_of (PutContent empty_driver ''/d/f'' [1])"

text \<open>The invariant of the table \<^verbatim>\<open>files\<close>: every row not directly under the root
  has a row for its directory. And what an operation may do to the table while it ensures
  ancestors: rows at keys other than \<open>ks\<close> stay as they are, and a new row at another key
  is a marker.\<close>

definition has_parent :: "plusDriver \<Rightarrow> fileInfo \<Rightarrow> bool" where
  "has_parent s r \<longleftrightarrow>
     DirName r = ''/'' \<or> select_file s (Dir (DirName r)) (Base (DirName r)) \<noteq> None"

definition parents_exist :: "plusDriver \<Rightarrow> bool" where
  "parents_exist s \<longleftrightarrow> (\<forall>r \<in> set (files s). has_parent s r)"

definition only_markers_added :: "plusDriver \<Rightarrow> (string \<times> string) list \<Rightarrow> plusDriver \<Rightarrow> bool" where
  "only_markers_added s ks s' \<longleftrightarrow>
     (\<forall>d b r. select_file s d b = Some r \<and> (d, b) \<notin> set ks \<longrightarrow> select_file s' d b = Some r) \<and>
     (\<forall>r \<in> set (files s'). r \<in> set (files s) \<or> (DirName r, BaseName r) \<in> set ks \<or> is_marker r)"

text \<open>The segment that \<^verbatim>\<open>Write\<close> uploads, and its row.\<close>

definition next_segment :: "plusWriter \<Rightarrow> plusDriver \<Rightarrow> bytes \<Rightarrow> plusSegment" where
  "next_segment w s buf =
     \<lparr>Prefix = ObjectPrefix s, seg_Location = location w,
      Number = (if w_segments w = [] then 1 else Number (last (w_segments w)) + 1),
      seg_SizeBytes = of_nat (length buf), Hash = hash_of s buf\<rparr>"

definition segment_row :: "plusSegment \<Rightarrow> segmentRow" where
  "segment_row sg =
     \<lparr>row_location = seg_Location sg, row_number = uint (Number sg),
      row_size_bytes = uint (seg_SizeBytes sg), row_hash = Hash sg\<rparr>"

text \<open>The state after a second writer has appended two segments to \<^verbatim>\<open>/a/b\<close>.\<close>

definition appended_driver :: plusDriver where
  "appended_driver =
     snd (after_commit
            (after_write (after_write (new_writer segmented_driver ''/a/b'' True) [4]) [5, 6]))"

subsection \<open>Recursive deletion and the rows below a directory\<close>

text \<open>The primary key of the table \<^verbatim>\<open>files\<close>: no two rows have the same directory and
  base name.\<close>

definition primary_key :: "plusDriver \<Rightarrow> bool" where
  "primary_key s \<longleftrightarrow> distinct (map (\<lambda>r. (DirName r, BaseName r)) (files s))"

text \<open>The directory of every row is the path of the key at which its parent is looked up,
  as it is for a clean path.\<close>

definition clean_dirs :: "plusDriver \<Rightarrow> bool" where
  "clean_dirs s \<longleftrightarrow>
     (\<forall>r \<in> set (files s). DirName r = ''/'' \<or> Join (Dir (DirName r)) (Base (DirName r)) = DirName r)"

text \<open>The rows below a directory \<open>fi\<close>: the rows that \<^verbatim>\<open>deleteDownwards\<close> reaches from
  it, which are its children and the children of the directories below it. The children of
  a file are not reached.\<close>

inductive below :: "plusDriver \<Rightarrow> fileInfo \<Rightarrow> fileInfo \<Rightarrow> bool" for s fi where
  child: "IsDir fi \<Longrightarrow> r \<in> set (files s) \<Longrightarrow> DirName r = Path fi \<Longrightarrow> below s fi r"
| deeper: "below s fi q \<Longrightarrow> IsDir q \<Longrightarrow> r \<in> set (files s) \<Longrightarrow> DirName r = Path q \<Longrightarrow>
     below s fi r"

text \<open>No object is left under the location of a row.\<close>

definition blobs_gone :: "plusDriver \<Rightarrow> fileInfo \<Rightarrow> bool" where
  "blobs_gone s r \<longleftrightarrow>
     (Location r \<noteq> [] \<longrightarrow>
      (\<forall>n. take (length (prependPrefix (ObjectPrefix s) (Location r) @ ''/'')) n =
             prependPrefix (ObjectPrefix s) (Location r) @ ''/'' \<longrightarrow> objects s n = None))"

text \<open>The rows of \<open>s\<close> that are no longer in \<open>u\<close> have lost their objects, and the
  directories among them their children.\<close>

definition deleted_with_children :: "plusDriver \<Rightarrow> plusDriver \<Rightarrow> bool" where
  "deleted_with_children s u \<longleftrightarrow>
     (\<forall>r \<in> set (files s). r \<notin> set (files u) \<longrightarrow>
        blobs_gone u r \<and>
        (IsDir r \<longrightarrow> (\<forall>c \<in> set (files s). DirName c = Path r \<longrightarrow> c \<notin> set (files u))))"

text \<open>What a call of \<^verbatim>\<open>deleteDownwards\<close> that returns has done: the children of a
  directory are gone before its row is deleted, a row that is deleted has the key of \<open>fi\<close>
  or is below it, and, seen from a table \<open>s\<close> with which a deletion began, the rows deleted
  so far have lost their objects and children.\<close>

definition deleted_below :: "plusDriver \<Rightarrow> fileInfo \<Rightarrow> outcome \<Rightarrow> bool" where
  "deleted_below u fi y \<longleftrightarrow>
     deleted u fi y \<and>
     (IsDir fi \<longrightarrow>
        (\<exists>u2. snd y = delete_file u2 (DirName fi) (BaseName fi) \<and> select_children u2 (Path fi) = [])) \<and>
     (\<forall>r \<in> set (files u). r \<notin> set (files (snd y)) \<longrightarrow>
        has_key (DirName fi) (BaseName fi) r \<or> below u fi r) \<and>
     (\<forall>s. primary_key s \<and> shrinks s u \<and> fi \<in> set (files s) \<and> deleted_with_children s u \<longrightarrow>
          deleted_with_children s (snd y))"


text \<open>A directory \<^verbatim>\<open>/d\<close> with a file \<^verbatim>\<open>/d/g\<close> and a directory \<^verbatim>\<open>/d/e\<close>, in
  which a file \<^verbatim>\<open>/d/e/f\<close> has its content in the object store, and a file \<^verbatim>\<open>/h\<close>
  beside it.\<close>

definition deep_files :: plusDriver where
  "deep_files =
     state_of (PutContent
       (state_of (PutContent (state_of (PutContent empty_driver ''/d/e/f'' (replicate 257 7)))
          ''/d/g'' [1]))
       ''/h'' [2])"

text \<open>A file \<^verbatim>\<open>/x/y\<close> that is put where a directory marker was, above the file
  \<^verbatim>\<open>/x/y/z\<close>, and a file \<^verbatim>\<open>/s\<close>.\<close>

definition file_over_marker :: plusDriver where
  "file_over_marker =
     state_of (PutContent
       (state_of (PutContent (state_of (PutContent empty_driver ''/x/y/z'' [1])) ''/x/y'' [2]))
       ''/s'' [3])"

section \<open>Properties\<close>

subsection \<open>Paths\<close>

text \<open>On a rooted path \<^verbatim>\<open>path.Clean\<close> writes a rooted path, and no more bytes than
  it reads, the slash at the end not counted.\<close>

lemma backtrack_bounds: "backtrack buf 1 w \<le> w \<and> (1 \<le> w \<longrightarrow> 1 \<le> backtrack buf 1 w)"
  by (induction w) auto

lemma clean_loop_rooted:
  "rooted \<Longrightarrow> dotdot = 1 \<Longrightarrow> out \<noteq> [] \<Longrightarrow> hd out = slash \<Longrightarrow>
   clean_loop rooted inp out dotdot \<noteq> [] \<and> hd (clean_loop rooted inp out dotdot) = slash \<and>
   length (clean_loop rooted inp out dotdot) + closing inp \<le> length out + length inp + pending inp out"
proof (induction rooted inp out dotdot rule: clean_loop.induct)
  case (1 rooted out dotdot)
  then show ?case by (simp add: closing_def pending_def)
next
  case (2 rooted c cs out dotdot)
  let ?res = "clean_loop rooted (c # cs) out dotdot"
  consider (sl) "c = slash"
    | (dt) "c \<noteq> slash" "c = dot \<and> (cs = [] \<or> hd cs = slash)"
    | (dd) "c \<noteq> slash" "\<not> (c = dot \<and> (cs = [] \<or> hd cs = slash))"
           "c = dot \<and> cs \<noteq> [] \<and> hd cs = dot \<and> (tl cs = [] \<or> hd (tl cs) = slash)"
    | (el) "c \<noteq> slash" "\<not> (c = dot \<and> (cs = [] \<or> hd cs = slash))"
           "\<not> (c = dot \<and> cs \<noteq> [] \<and> hd cs = dot \<and> (tl cs = [] \<or> hd (tl cs) = slash))"
    by blast
  then show ?case
  proof cases
    case sl
    have eq: "?res = clean_loop rooted cs out dotdot" using sl by simp
    from "2.IH"(1) [OF sl "2.prems"] show ?thesis
      unfolding eq using sl by (auto simp: closing_def pending_def split: if_splits)
  next
    case dt
    have eq: "?res = clean_loop rooted cs out dotdot" using dt by simp
    from "2.IH"(2) [OF dt "2.prems"] show ?thesis
      unfolding eq using dt by (auto simp: closing_def pending_def slash_def dot_def split: if_splits)
  next
    case dd
    let ?out = "take (backtrack out dotdot (length out - 1)) out"
    show ?thesis
    proof (cases "length out > dotdot")
      case True
      have eq: "?res = clean_loop rooted (tl cs) ?out dotdot" using dd True by simp
      have b: "1 \<le> backtrack out 1 (length out - 1)" "backtrack out 1 (length out - 1) \<le> length out - 1"
        using backtrack_bounds [of out "length out - 1"] True "2.prems"(2) by auto
      then have o: "?out \<noteq> []" "hd ?out = slash" "length ?out \<le> length out"
        using "2.prems" by (auto simp: hd_take)
      from "2.IH"(3) [OF dd True "2.prems"(1,2) o(1,2)] show ?thesis
        unfolding eq using dd o(3)
        by (cases cs) (auto simp: closing_def pending_def slash_def dot_def split: if_splits)
    next
      case False
      have eq: "?res = clean_loop rooted (tl cs) out dotdot" using dd False "2.prems"(1) by simp
      from "2.IH"(5) [OF dd False _ "2.prems"] "2.prems"(1) show ?thesis
        unfolding eq using dd
        by (cases cs) (auto simp: closing_def pending_def slash_def dot_def split: if_splits)
    qed
  next
    case el
    let ?out = "(if rooted \<and> length out \<noteq> 1 \<or> \<not> rooted \<and> length out \<noteq> 0 then out @ [slash] else out)"
    let ?rest = "dropWhile (\<lambda>x. x \<noteq> slash) (c # cs)"
    let ?elem = "takeWhile (\<lambda>x. x \<noteq> slash) (c # cs)"
    have eq: "?res = clean_loop rooted ?rest (?out @ ?elem) dotdot"
      using el by (simp only: clean_loop.simps if_False Let_def)
    have o: "?out @ ?elem \<noteq> []" "hd (?out @ ?elem) = slash"
      using "2.prems" by auto
    have len: "length ?elem + length ?rest = length (c # cs)"
      by (metis length_append takeWhile_dropWhile_id)
    have r: "?rest = [] \<or> hd ?rest = slash"
      using hd_dropWhile [of "\<lambda>x. x \<noteq> slash" "c # cs"] by auto
    have cl: "closing ?rest = closing (c # cs)"
    proof (cases "?rest = []")
      case True
      then have "\<forall>x \<in> set (c # cs). x \<noteq> slash" by (simp only: dropWhile_eq_Nil_conv)
      then have "last (c # cs) \<noteq> slash" using last_in_set [of "c # cs"] by blast
      then show ?thesis using True by (simp add: closing_def)
    next
      case False
      have "c # cs = ?elem @ ?rest" by simp
      then have "last (c # cs) = last ?rest" using False by (metis last_appendR)
      then show ?thesis using False by (simp add: closing_def)
    qed
    have pe: "pending ?rest (?out @ ?elem) = 0" using r by (auto simp: pending_def)
    from "2.IH"(6) [OF el refl "2.prems"(1,2) o] show ?thesis
      unfolding eq cl pe using len el(1) "2.prems"(1)
      by (auto simp: pending_def split: if_splits)
  qed
qed


lemma Clean_nonempty: "Clean p \<noteq> []"
  by (simp add: Clean_def Let_def)

lemma Dir_nonempty: "Dir p \<noteq> []"
  by (simp add: Dir_def Clean_nonempty)

lemma Split_rooted:
  assumes "rooted_path p"
  shows "fst (Split p) \<noteq> []" "hd (fst (Split p)) = slash" "last (fst (Split p)) = slash"
    "length (fst (Split p)) \<le> length p"
proof -
  let ?d = "dropWhile (\<lambda>x. x \<noteq> slash) (rev p)"
  have "slash \<in> set (rev p)" using assms by (cases p) (auto simp: rooted_path_def)
  then have ne: "?d \<noteq> []" by (simp only: dropWhile_eq_Nil_conv) auto
  then show "fst (Split p) \<noteq> []" by (simp add: Split_def)
  have "hd ?d = slash" using hd_dropWhile [OF ne] by simp
  then show "last (fst (Split p)) = slash" using ne by (simp add: Split_def last_rev)
  have p: "p = fst (Split p) @ snd (Split p)"
    unfolding Split_def fst_conv snd_conv
    by (metis rev_append rev_rev_ident takeWhile_dropWhile_id)
  then have "hd p = hd (fst (Split p))" using \<open>fst (Split p) \<noteq> []\<close> by (metis hd_append2)
  then show "hd (fst (Split p)) = slash" using assms by (simp add: rooted_path_def)
  show "length (fst (Split p)) \<le> length p"
    by (simp add: Split_def length_dropWhile_le [of _ "rev p", simplified])
qed

lemma Dir_rooted:
  assumes "rooted_path p"
  shows "rooted_path (Dir p) \<and> (Dir p = ''/'' \<or> length (Dir p) < length p)"
proof -
  let ?x = "fst (Split p)"
  let ?out = "clean_loop True (tl ?x) [slash] 1"
  note x = Split_rooted [OF assms]
  have c: "Dir p = ?out \<and> ?out \<noteq> [] \<and> hd ?out = slash \<and>
        length ?out + closing (tl ?x) \<le> 1 + length (tl ?x)"
    using clean_loop_rooted [of True 1 "[slash]" "tl ?x"] x(1,2)
    by (simp add: Dir_def Clean_def Let_def pending_def)
  show ?thesis
  proof (cases "tl ?x = []")
    case True
    then show ?thesis using c by (simp add: rooted_path_def slash_def)
  next
    case False
    then have "last (tl ?x) = slash" using x(1,3) by (metis last_tl)
    then have "closing (tl ?x) = 1" using False by (simp add: closing_def)
    then have "length ?out < length ?x" using c x(1) by (cases ?x) auto
    then show ?thesis using c x(4) by (simp add: rooted_path_def)
  qed
qed

text \<open>\<^verbatim>\<open>mkdirAll\<close> returns on every rooted path: the directory of a rooted path
  is the root or a shorter rooted path.\<close>

lemma mkdirAll_returns:
  "rooted_path p \<Longrightarrow> \<exists>s'. mkdirAll s p = Some (None, s')"
proof (induction "length p" arbitrary: p s rule: less_induct)
  case less
  show ?case
  proof (cases "p = ''/'' \<or> p = []")
    case True
    then show ?thesis by (subst mkdirAll.simps) simp
  next
    case False
    note d = Dir_rooted [OF less.prems]
    have "\<exists>s'. mkdirAll (insert_dir s (Dir p) (Base p)) (Dir p) = Some (None, s')"
    proof (cases "Dir p = ''/''")
      case True
      then show ?thesis by (subst mkdirAll.simps) simp
    next
      case False
      with d have "length (Dir p) < length p" by simp
      from less.hyps [OF this] d show ?thesis by simp
    qed
    then show ?thesis using False by (subst mkdirAll.simps) simp
  qed
qed

subsection \<open>Rows and markers\<close>

lemma find_append_eq:
  "find P (xs @ ys) = (case find P xs of Some x \<Rightarrow> Some x | None \<Rightarrow> find P ys)"
  by (induction xs) auto

lemma frame_trans:
  "s1 = s\<lparr>files := a\<rparr> \<Longrightarrow> t = s1\<lparr>files := b\<rparr> \<Longrightarrow> t = s\<lparr>files := b\<rparr>"
  by simp

lemma insert_dir_frame: "insert_dir s d b = s\<lparr>files := files (insert_dir s d b)\<rparr>"
  by (simp add: insert_dir_def)

lemma insert_dir_files:
  "\<exists>extra. files (insert_dir s d b) = files s @ extra \<and> (\<forall>r \<in> set extra. is_marker r)"
  by (simp add: insert_dir_def is_marker_def)

text \<open>\<^verbatim>\<open>mkdirAll\<close> returns no error, changes the table \<^verbatim>\<open>files\<close> only, and
  only by appending markers.\<close>

lemma mkdirAll_frame:
  assumes "mkdirAll s p = Some y"
  shows "fst y = None \<and> snd y = s\<lparr>files := files (snd y)\<rparr> \<and>
         (\<exists>extra. files (snd y) = files s @ extra \<and> (\<forall>r \<in> set extra. is_marker r))"
proof (rule mkdirAll.raw_induct [OF _ assms])
  fix f s fullPath y
  assume IH: "\<And>s p y. f s p = Some y \<Longrightarrow>
      fst y = None \<and> snd y = s\<lparr>files := files (snd y)\<rparr> \<and>
      (\<exists>extra. files (snd y) = files s @ extra \<and> (\<forall>r \<in> set extra. is_marker r))"
    and eq: "(if fullPath = ''/'' \<or> fullPath = [] then Some (None, s)
              else f (insert_dir s (Dir fullPath) (Base fullPath)) (Dir fullPath)) = Some y"
  show "fst y = None \<and> snd y = s\<lparr>files := files (snd y)\<rparr> \<and>
        (\<exists>extra. files (snd y) = files s @ extra \<and> (\<forall>r \<in> set extra. is_marker r))"
  proof (cases "fullPath = ''/'' \<or> fullPath = []")
    case True
    with eq have "y = (None, s)" by auto
    then show ?thesis by simp
  next
    case False
    let ?s1 = "insert_dir s (Dir fullPath) (Base fullPath)"
    from False eq have "f ?s1 (Dir fullPath) = Some y" by auto
    from IH [OF this] obtain extra where
      e: "fst y = None" and f: "snd y = ?s1\<lparr>files := files (snd y)\<rparr>"
      and x: "files (snd y) = files ?s1 @ extra" "\<forall>r \<in> set extra. is_marker r"
      by blast
    obtain extra1 where x1: "files ?s1 = files s @ extra1" "\<forall>r \<in> set extra1. is_marker r"
      using insert_dir_files by blast
    have "snd y = s\<lparr>files := files (snd y)\<rparr>"
      by (rule frame_trans [OF insert_dir_frame f])
    moreover have "files (snd y) = files s @ (extra1 @ extra)"
      "\<forall>r \<in> set (extra1 @ extra). is_marker r"
      using x x1 by auto
    ultimately show ?thesis using e by blast
  qed
qed

lemma select_file_append:
  "select_file s d b = Some r \<Longrightarrow> files s' = files s @ extra \<Longrightarrow> select_file s' d b = Some r"
  by (simp add: select_file_def find_append_eq)

lemma select_file_upsert_same:
  "select_file (upsert_file s fi) (DirName fi) (BaseName fi) = Some fi"
proof (cases "select_file s (DirName fi) (BaseName fi)")
  case None
  then show ?thesis
    by (simp add: upsert_file_def select_file_def find_append_eq has_key_def)
next
  case (Some r)
  have "find (has_key d b) xs \<noteq> None \<Longrightarrow> has_key d b fi \<Longrightarrow>
        find (has_key d b) (map (\<lambda>r. if has_key d b r then fi else r) xs) = Some fi" for d b xs
    by (induction xs) auto
  with Some show ?thesis
    by (simp add: upsert_file_def select_file_def has_key_def)
qed

lemma upsert_file_frame: "upsert_file s fi = s\<lparr>files := files (upsert_file s fi)\<rparr>"
  by (simp add: upsert_file_def)

text \<open>After \<^verbatim>\<open>writeFileInfo\<close> the row is the one written, with the time set.\<close>

lemma writeFileInfo_row:
  assumes "writeFileInfo s fi = Some y"
  shows "fst y = None \<and> snd y = s\<lparr>files := files (snd y)\<rparr> \<and>
         select_file (snd y) (DirName fi) (BaseName fi) =
           Some (if ModifiedAt fi = 0 then fi\<lparr>ModifiedAt := clock s\<rparr> else fi)"
proof -
  let ?fi = "if ModifiedAt fi = 0 then fi\<lparr>ModifiedAt := clock s\<rparr> else fi"
  have k: "DirName ?fi = DirName fi" "BaseName ?fi = BaseName fi" by auto
  from assms have m: "mkdirAll (upsert_file s ?fi) (DirName fi) = Some y"
    by (auto simp: writeFileInfo_def Let_def)
  from mkdirAll_frame [OF m] obtain extra where
    e: "fst y = None" and f: "snd y = (upsert_file s ?fi)\<lparr>files := files (snd y)\<rparr>"
    and x: "files (snd y) = files (upsert_file s ?fi) @ extra"
    by blast
  have "snd y = s\<lparr>files := files (snd y)\<rparr>"
    by (rule frame_trans [OF upsert_file_frame f])
  moreover have "select_file (snd y) (DirName fi) (BaseName fi) = Some ?fi"
    using select_file_append [OF select_file_upsert_same [of s ?fi] x] k by simp
  ultimately show ?thesis using e by blast
qed

lemma succeededD: "succeeded r \<Longrightarrow> r = Some (None, state_of r)"
  by (auto simp: succeeded_def state_of_def split: option.splits prod.splits)

lemma select_file_key: "select_file s d b = Some r \<Longrightarrow> DirName r = d \<and> BaseName r = b"
  by (auto simp: select_file_def has_key_def find_Some_iff)

lemma readFileInfo_key: "readFileInfo s p = Some fi \<Longrightarrow> DirName fi = Dir p \<and> BaseName fi = Base p"
  by (simp add: readFileInfo_def select_file_key)

lemma select_file_delete_same: "select_file (delete_file s d b) d b = None"
  by (simp add: select_file_def delete_file_def find_None_iff)

lemma deleteDownwards_file:
  "\<not> IsDir fi \<Longrightarrow>
   deleteDownwards s fi = Some (None, delete_file (snd (deleteBlobs s fi)) (DirName fi) (BaseName fi))"
  by (subst deleteDownwards.simps) (simp add: on_success_def deleteBlobs_def)

lemma files_frame:
  assumes "t = s\<lparr>files := a\<rparr>"
  shows "segments t = segments s" "objects t = objects s" "writes t = writes s"
    "ObjectPrefix t = ObjectPrefix s" "entropy t = entropy s" "clock t = clock s"
  using assms by simp_all

lemma deleteBlobs_frame:
  "fst (deleteBlobs s fi) = None" "files (snd (deleteBlobs s fi)) = files s"
  "segments (snd (deleteBlobs s fi)) = segments s" "writes (snd (deleteBlobs s fi)) = writes s"
  "ObjectPrefix (snd (deleteBlobs s fi)) = ObjectPrefix s"
  "entropy (snd (deleteBlobs s fi)) = entropy s" "clock (snd (deleteBlobs s fi)) = clock s"
  by (simp_all add: deleteBlobs_def swift_DeleteAll_def)

lemma put_pre:
  "(case readFileInfo s p of Some fi \<Rightarrow> deleteBlobs s fi | None \<Rightarrow> (None, s)) = (None, put_pre s p)"
  "files (put_pre s p) = files s" "segments (put_pre s p) = segments s"
  "writes (put_pre s p) = writes s" "ObjectPrefix (put_pre s p) = ObjectPrefix s"
  "entropy (put_pre s p) = entropy s" "clock (put_pre s p) = clock s"
  by (auto simp: put_pre_def deleteBlobs_frame prod_eq_iff split: option.splits)

lemma PutContent_inline:
  assumes "PutContent s p c = Some (None, s')" and "length c \<le> 256"
  shows "writes s' = writes s \<and>
         readFileInfo s' p = Some \<lparr>DirName = Dir p, BaseName = Base p, SizeBytes = int (length c),
            ModifiedAt = clock s, Contents = c, Location = []\<rparr>"
proof -
  define fi where "fi = \<lparr>DirName = Dir p, BaseName = Base p, SizeBytes = int (length c),
            ModifiedAt = 0, Contents = c, Location = []\<rparr>"
  from assms have w: "writeFileInfo (put_pre s p) fi = Some (None, s')"
    unfolding PutContent_def put_pre(1) fi_def
    by (auto simp: maxInlineSizeBytes_def Let_def split: option.splits prod.splits)
  from writeFileInfo_row [OF w] have f: "s' = (put_pre s p)\<lparr>files := files s'\<rparr>"
    and r: "select_file s' (DirName fi) (BaseName fi) = Some (fi\<lparr>ModifiedAt := clock (put_pre s p)\<rparr>)"
    by (simp_all add: fi_def)
  show ?thesis
    using r files_frame(3) [OF f] by (simp add: fi_def readFileInfo_def put_pre)
qed

lemma PutContent_external:
  assumes "PutContent s p c = Some (None, s')" and "length c > 256"
  shows "writes s' = Suc (writes s) \<and> 8 \<le> length (entropy s) \<and>
         readFileInfo s' p = Some \<lparr>DirName = Dir p, BaseName = Base p, SizeBytes = int (length c),
            ModifiedAt = clock s, Contents = [], Location = EncodeToString (take 8 (entropy s))\<rparr> \<and>
         objects s' (prependPrefix (ObjectPrefix s') (EncodeToString (take 8 (entropy s)) @ ''/content'')) = Some (Plain c)"
proof -
  define loc where "loc = EncodeToString (take 8 (entropy s))"
  define fi where "fi = \<lparr>DirName = Dir p, BaseName = Base p, SizeBytes = int (length c),
            ModifiedAt = 0, Contents = [], Location = loc\<rparr>"
  define s2 where "s2 = (put_pre s p)\<lparr>entropy := drop 8 (entropy s)\<rparr>"
  from assms have en: "8 \<le> length (entropy s)"
    unfolding PutContent_def put_pre(1)
    by (auto simp: maxInlineSizeBytes_def Let_def plusRandLocation_def put_pre split: if_splits)
  then have rnd: "plusRandLocation (put_pre s p) = (Inr loc, s2)"
    by (simp add: plusRandLocation_def put_pre loc_def s2_def)
  from assms obtain s3 where w: "writeFileInfo s2 fi = Some (None, s3)"
    and s': "s' = snd (swift_Write s3 (prependPrefix (ObjectPrefix s3) (fi_ObjectPath fi)) c)"
    unfolding PutContent_def put_pre(1)
    by (auto simp: maxInlineSizeBytes_def Let_def rnd fi_def split: option.splits prod.splits)
  from writeFileInfo_row [OF w] have f: "s3 = s2\<lparr>files := files s3\<rparr>"
    and r: "select_file s3 (DirName fi) (BaseName fi) = Some (fi\<lparr>ModifiedAt := clock s2\<rparr>)"
    by (simp_all add: fi_def)
  have "writes s3 = writes s" "clock s2 = clock s"
    using files_frame(3) [OF f] by (simp_all add: s2_def put_pre)
  then show ?thesis
    using r en by (simp add: s' swift_Write_def fi_def readFileInfo_def select_file_def loc_def fi_ObjectPath_def)
qed

text \<open>\<^verbatim>\<open>PutContent\<close> returns on a rooted path, and without error when the
  random source has the eight bytes that a large file needs.\<close>

lemma PutContent_returns:
  assumes "rooted_path p" and "length c > 256 \<Longrightarrow> 8 \<le> length (entropy s)"
  shows "\<exists>s'. PutContent s p c = Some (None, s')"
proof -
  have m: "\<exists>s'. writeFileInfo t fi = Some (None, s')" if "DirName fi = Dir p" for t fi
    using mkdirAll_returns [of "Dir p"] Dir_rooted [OF assms(1)] that
    by (simp add: writeFileInfo_def Let_def)
  show ?thesis
  proof (cases "length c > 256")
    case False
    let ?fi = "\<lparr>DirName = Dir p, BaseName = Base p, SizeBytes = int (length c),
                ModifiedAt = 0, Contents = c, Location = []\<rparr>"
    from m [of ?fi "put_pre s p"] obtain s' where "writeFileInfo (put_pre s p) ?fi = Some (None, s')"
      by auto
    then show ?thesis
      using False unfolding PutContent_def put_pre(1)
      by (simp add: maxInlineSizeBytes_def Let_def)
  next
    case True
    let ?fi = "\<lparr>DirName = Dir p, BaseName = Base p, SizeBytes = int (length c),
                ModifiedAt = 0, Contents = [], Location = EncodeToString (take 8 (entropy s))\<rparr>"
    let ?s2 = "(put_pre s p)\<lparr>entropy := drop 8 (entropy s)\<rparr>"
    have rnd: "plusRandLocation (put_pre s p) = (Inr (EncodeToString (take 8 (entropy s))), ?s2)"
      using assms(2) [OF True] by (simp add: plusRandLocation_def put_pre)
    from m [of ?fi ?s2] obtain s3 where "writeFileInfo ?s2 ?fi = Some (None, s3)"
      by auto
    then show ?thesis
      using True unfolding PutContent_def put_pre(1)
      by (simp add: maxInlineSizeBytes_def Let_def rnd swift_Write_def)
  qed
qed

subsection \<open>C1: a file that is put is the file that is got\<close>

text \<open>C1. On a rooted path other than the root, \<^verbatim>\<open>PutContent\<close> of the bytes \<open>c\<close>
  returns without error (the random source having eight bytes when \<open>c\<close> has more than
  256); then \<^verbatim>\<open>GetContent\<close> of the path returns \<open>c\<close> and \<^verbatim>\<open>Stat\<close> a size
  of \<open>length c\<close>. Up to 256 bytes the row holds the bytes, has no location, and the object
  store has received no write; above 256 bytes the row holds no bytes, its location is the
  hex of the next eight random bytes, and the object store has received a write.\<close>

theorem put_get_roundtrip:
  assumes "rooted_path p" and "p \<noteq> ''/''"
    and "length c > 256 \<Longrightarrow> 8 \<le> length (entropy s)"
  shows "\<exists>s'. PutContent s p c = Some (None, s') \<and>
         GetContent s' p = Inr c \<and>
         (\<exists>fi. Stat s' p = Inr fi \<and> SizeBytes fi = int (length c) \<and>
            (length c \<le> 256 \<longrightarrow> Contents fi = c \<and> Location fi = []) \<and>
            (length c > 256 \<longrightarrow>
               Contents fi = [] \<and> Location fi = EncodeToString (take 8 (entropy s)))) \<and>
         (length c \<le> 256 \<longrightarrow> writes s' = writes s) \<and>
         (length c > 256 \<longrightarrow> writes s' \<ge> writes s + 1)"
proof -
  from PutContent_returns [OF assms(1,3)] obtain s' where s': "PutContent s p c = Some (None, s')"
    by blast
  show ?thesis
  proof (cases "length c \<le> 256")
    case True
    from PutContent_inline [OF s' True] show ?thesis
      using True assms(2) s' by (simp add: GetContent_def Stat_def IsDir_def Let_def)
  next
    case False
    then have "length c > 256" by simp
    from PutContent_external [OF s' this] show ?thesis
      using False assms(2) s'
      by (simp add: GetContent_def Stat_def IsDir_def fi_ObjectPath_def swift_Reader_def Let_def)
  qed
qed

theorem put_get_roundtrip_witness:
  "rooted_path ''/a/b'' \<and>
   succeeded (PutContent empty_driver ''/a/b'' [1, 2, 3]) \<and>
   GetContent (state_of (PutContent empty_driver ''/a/b'' [1, 2, 3])) ''/a/b'' = Inr [1, 2, 3] \<and>
   writes (state_of (PutContent empty_driver ''/a/b'' [1, 2, 3])) = 0 \<and>
   succeeded (PutContent empty_driver ''/a/b'' (replicate 257 7)) \<and>
   GetContent (state_of (PutContent empty_driver ''/a/b'' (replicate 257 7))) ''/a/b'' =
     Inr (replicate 257 7) \<and>
   writes (state_of (PutContent empty_driver ''/a/b'' (replicate 257 7))) \<ge> 1"
proof -
  have r: "rooted_path ''/a/b''"
    by (simp add: rooted_path_def slash_def)
  have p: "''/a/b'' \<noteq> ''/''" by simp
  have e: "8 \<le> length (entropy empty_driver)" "writes empty_driver = 0"
    by (simp_all add: empty_driver_def)
  show ?thesis
    using put_get_roundtrip [OF r p, of "[1, 2, 3]" empty_driver]
      put_get_roundtrip [OF r p, of "replicate 257 7" empty_driver] r e
    by (auto simp: succeeded_def state_of_def)
qed

subsection \<open>C2: a writer after Cancel or Commit\<close>

text \<open>C2. The claim is that every operation on a writer that is cancelled, committed or
  closed fails with the error of that state. In the code only \<^verbatim>\<open>Commit\<close> looks at
  the three flags, and no function sets \<^verbatim>\<open>closed\<close>. After one \<^verbatim>\<open>Write\<close> and
  \<^verbatim>\<open>Cancel\<close> (both without error), a second \<^verbatim>\<open>Cancel\<close> returns no error, and a
  further \<^verbatim>\<open>Write\<close> numbers its segment 1 again, uploads it, and fails on the key of
  the table \<^verbatim>\<open>segments\<close>, not with \<^verbatim>\<open>errCancelled\<close>; \<^verbatim>\<open>Commit\<close> does return
  \<^verbatim>\<open>errCancelled\<close>. After \<^verbatim>\<open>Commit\<close>, a further \<^verbatim>\<open>Write\<close>, \<^verbatim>\<open>Cancel\<close> and
  \<^verbatim>\<open>Close\<close> return no error.\<close>

theorem terminal_writer_accepts_operations:
  "fst (the (Cancel (fst (after_write (new_writer empty_driver ''/a/b'' False) [1]))
                    (snd (after_write (new_writer empty_driver ''/a/b'' False) [1])))) = None \<and>
   cancelled (fst cancelled_writer) \<and>
   map_option fst (Cancel (fst cancelled_writer) (snd cancelled_writer)) = Some None \<and>
   fst (Write (fst cancelled_writer) (snd cancelled_writer) [2]) =
     (1, Some (SqlError ''duplicate key value violates unique constraint'')) \<and>
   writes (snd (after_write cancelled_writer [2])) = Suc (writes (snd cancelled_writer)) \<and>
   map_option fst (Commit (fst cancelled_writer) (snd cancelled_writer)) = Some (Some errCancelled) \<and>
   committed (fst committed_writer) \<and>
   fst (Write (fst committed_writer) (snd committed_writer) [2]) = (1, None) \<and>
   map_option fst (Cancel (fst committed_writer) (snd committed_writer)) = Some None \<and>
   map_option fst (Close (fst committed_writer) (snd committed_writer)) = Some None"
  by code_simp

subsection \<open>C6: temporary URLs\<close>

text \<open>C6, as claimed, fails where no row exists: \<^verbatim>\<open>URLFor\<close> then returns the
  not-found error, not \<^verbatim>\<open>ErrUnsupportedMethod\<close>.\<close>

theorem URLFor_missing_record_counterexample:
  "readFileInfo empty_driver ''/a/b'' = None \<and>
   URLFor empty_driver ''/a/b'' [] \<noteq> Inl ErrUnsupportedMethod"
  by code_simp

text \<open>C6, amended. \<^verbatim>\<open>URLFor\<close> returns a URL only when a row exists at the path and
  has a location; when the row has no location it returns \<^verbatim>\<open>ErrUnsupportedMethod\<close>;
  when no row exists it returns the not-found error of the path.\<close>

theorem URLFor_cases:
  "(\<forall>u. URLFor s p opts = Inr u \<longrightarrow> (\<exists>fi. readFileInfo s p = Some fi \<and> Location fi \<noteq> [])) \<and>
   (\<forall>fi. readFileInfo s p = Some fi \<and> Location fi = [] \<longrightarrow>
      URLFor s p opts = Inl ErrUnsupportedMethod) \<and>
   (readFileInfo s p = None \<longrightarrow> URLFor s p opts = Inl (PathNotFoundError p))"
  by (auto simp: URLFor_def split: option.splits if_splits)

theorem URLFor_cases_witness:
  "URLFor (state_of (PutContent empty_driver ''/a/b'' [1, 2, 3])) ''/a/b'' [] =
     Inl ErrUnsupportedMethod \<and>
   URLFor empty_driver ''/a/b'' [] = Inl (PathNotFoundError ''/a/b'') \<and>
   URLFor (state_of (PutContent empty_driver ''/a/b'' (replicate 257 7))) ''/a/b'' [] =
     Inr ''https://swift/pre/0102030405060708/content'' \<and>
   (\<exists>fi. readFileInfo (state_of (PutContent empty_driver ''/a/b'' (replicate 257 7))) ''/a/b'' =
            Some fi \<and> Location fi \<noteq> [])"
proof -
  let ?small = "state_of (PutContent empty_driver ''/a/b'' [1, 2, 3])"
  let ?large = "state_of (PutContent empty_driver ''/a/b'' (replicate 257 7))"
  have a: "readFileInfo ?small ''/a/b'' \<noteq> None \<and> Location (the (readFileInfo ?small ''/a/b'')) = []"
    by code_simp
  have b: "readFileInfo empty_driver ''/a/b'' = None"
    by code_simp
  have c: "URLFor ?large ''/a/b'' [] = Inr ''https://swift/pre/0102030405060708/content''"
    by code_simp
  have 1: "URLFor ?small ''/a/b'' [] = Inl ErrUnsupportedMethod"
    using URLFor_cases [of ?small "''/a/b''" "[]"] a by fastforce
  have 2: "URLFor empty_driver ''/a/b'' [] = Inl (PathNotFoundError ''/a/b'')"
    using URLFor_cases [of empty_driver "''/a/b''" "[]"] b by blast
  have 3: "\<exists>fi. readFileInfo ?large ''/a/b'' = Some fi \<and> Location fi \<noteq> []"
    using URLFor_cases [of ?large "''/a/b''" "[]"] c by blast
  show ?thesis
    using 1 2 3 c by blast
qed

subsection \<open>Recursive deletion\<close>

lemma shrinks_refl: "shrinks s s"
  unfolding shrinks_def by (auto intro: exI [of _ "\<lambda>r. True"])

lemma shrinks_trans:
  assumes "shrinks s t" and "shrinks t u"
  shows "shrinks s u"
proof -
  from assms obtain P Q where "files t = filter P (files s)" "files u = filter Q (files t)"
    unfolding shrinks_def by blast
  then have "files u = filter (\<lambda>r. P r \<and> Q r) (files s)"
    by (simp add: conj_commute)
  then have "\<exists>R. files u = filter R (files s)" by blast
  moreover have "\<forall>n. objects u n = None \<or> objects u n = objects s n"
    using assms unfolding shrinks_def by metis
  ultimately show ?thesis
    using assms unfolding shrinks_def by simp
qed

lemma shrinks_deleteBlobs: "shrinks s (snd (deleteBlobs s fi))"
  unfolding shrinks_def deleteBlobs_def swift_DeleteAll_def
  by (auto intro: exI [of _ "\<lambda>r. True"])

lemma shrinks_delete_file: "shrinks s (delete_file s d b)"
  unfolding shrinks_def delete_file_def by auto

lemma shrinks_select_None:
  "shrinks s s' \<Longrightarrow> select_file s d b = None \<Longrightarrow> select_file s' d b = None"
  by (auto simp: shrinks_def select_file_def find_None_iff)

lemma shrinks_files: "shrinks s s' \<Longrightarrow> set (files s') \<subseteq> set (files s)"
  by (auto simp: shrinks_def)

lemma on_success_Some:
  "on_success m k = Some y \<Longrightarrow>
   (\<exists>e s'. m = Some (Some e, s') \<and> y = (Some e, s')) \<or> (\<exists>s'. m = Some (None, s') \<and> k s' = Some y)"
  by (auto simp: on_success_def split: option.splits prod.splits)

lemma for_rows_deleted:
  assumes "\<And>s r y. f s r = Some y \<Longrightarrow> deleted s r y"
    and "for_rows f rs s = Some y"
  shows "fst y = None \<and> shrinks s (snd y) \<and>
         (\<forall>r \<in> set rs. select_file (snd y) (DirName r) (BaseName r) = None)"
  using assms(2)
proof (induction rs arbitrary: s)
  case Nil
  then show ?case by (auto simp: shrinks_refl)
next
  case (Cons r rs)
  from Cons.prems on_success_Some [of "f s r" "for_rows f rs" y]
  consider e s' where "f s r = Some (Some e, s')"
    | s' where "f s r = Some (None, s')" "for_rows f rs s' = Some y"
    by auto
  then show ?case
  proof cases
    case 1
    from assms(1) [OF 1] show ?thesis by (simp add: deleted_def)
  next
    case 2
    from assms(1) [OF 2(1)] have d: "shrinks s s'" "select_file s' (DirName r) (BaseName r) = None"
      by (simp_all add: deleted_def)
    from Cons.IH [OF 2(2)] have i: "fst y = None" "shrinks s' (snd y)"
      "\<forall>r \<in> set rs. select_file (snd y) (DirName r) (BaseName r) = None"
      by auto
    show ?thesis
      using i shrinks_trans [OF d(1) i(2)] shrinks_select_None [OF i(2) d(2)] by simp
  qed
qed

lemma deleteDownwards_deleted:
  assumes "deleteDownwards s fi = Some y"
  shows "deleted s fi y"
proof (rule deleteDownwards.raw_induct [OF _ assms])
  fix f s fi y
  assume IH: "\<And>s r y. f s r = Some y \<Longrightarrow> deleted s r y"
    and eq: "on_success (Some (deleteBlobs s fi)) (\<lambda>s1.
       on_success
         (if IsDir fi then for_rows f (select_children s1 (Path fi)) s1 else Some (None, s1))
         (\<lambda>s2. Some (None, delete_file s2 (DirName fi) (BaseName fi)))) = Some y"
  define s1 where "s1 = snd (deleteBlobs s fi)"
  have b: "deleteBlobs s fi = (None, s1)"
    by (simp add: deleteBlobs_def s1_def)
  have sh: "shrinks s s1"
    unfolding s1_def by (rule shrinks_deleteBlobs)
  let ?loop = "if IsDir fi then for_rows f (select_children s1 (Path fi)) s1 else Some (None, s1)"
  from eq have eq2: "on_success ?loop (\<lambda>s2. Some (None, delete_file s2 (DirName fi) (BaseName fi))) = Some y"
    unfolding b by (simp add: on_success_def)
  have l: "fst z = None \<and> shrinks s1 (snd z)" if "?loop = Some z" for z
    using that for_rows_deleted [OF IH, of f "select_children s1 (Path fi)" s1 z]
    by (auto simp: shrinks_refl split: if_splits)
  from on_success_Some [OF eq2] l obtain s2 where
    s2: "?loop = Some (None, s2)" "y = (None, delete_file s2 (DirName fi) (BaseName fi))"
    by fastforce
  from l [OF s2(1)] have "shrinks s1 s2" by simp
  then have "shrinks s (delete_file s2 (DirName fi) (BaseName fi))"
    using shrinks_trans [OF sh] shrinks_trans [OF _ shrinks_delete_file] by blast
  then show "deleted s fi y"
    by (simp add: deleted_def s2(2) select_file_delete_same)
qed

subsection \<open>C9: deleting a file leaves its segment rows\<close>

text \<open>C9. \<^verbatim>\<open>Delete\<close> of a path whose row is a file with a location returns without
  error; afterwards no object remains whose name begins with the prefix and location of
  the file, no row remains at the path, and the table \<^verbatim>\<open>segments\<close> is as before.\<close>

theorem Delete_keeps_segments:
  assumes "readFileInfo s p = Some fi" and "\<not> IsDir fi" and "Location fi \<noteq> []"
  shows "\<exists>s'. Delete s p = Some (None, s') \<and>
           segments s' = segments s \<and>
           readFileInfo s' p = None \<and>
           (\<forall>n. take (length (prependPrefix (ObjectPrefix s) (Location fi) @ ''/'')) n =
                  prependPrefix (ObjectPrefix s) (Location fi) @ ''/'' \<longrightarrow> objects s' n = None)"
proof -
  let ?s' = "delete_file (snd (deleteBlobs s fi)) (DirName fi) (BaseName fi)"
  have d: "Delete s p = Some (None, ?s')"
    using assms(1,2) by (simp add: Delete_def deleteDownwards_file)
  have "segments ?s' = segments s"
    by (simp add: delete_file_def deleteBlobs_frame)
  moreover have "readFileInfo ?s' p = None"
    using readFileInfo_key [OF assms(1)] by (simp add: readFileInfo_def select_file_delete_same)
  moreover have "\<forall>n. take (length (prependPrefix (ObjectPrefix s) (Location fi) @ ''/'')) n =
                  prependPrefix (ObjectPrefix s) (Location fi) @ ''/'' \<longrightarrow> objects ?s' n = None"
    using assms(3) by (simp add: delete_file_def deleteBlobs_def swift_DeleteAll_def)
  ultimately show ?thesis using d by blast
qed

theorem Delete_keeps_segments_witness:
  "succeeded (Delete segmented_driver ''/a/b'') \<and>
   length (segments (state_of (Delete segmented_driver ''/a/b''))) = 2 \<and>
   segments (state_of (Delete segmented_driver ''/a/b'')) = segments segmented_driver \<and>
   readFileInfo (state_of (Delete segmented_driver ''/a/b'')) ''/a/b'' = None \<and>
   objects segmented_driver ''pre/0102030405060708/0000000000000001'' = Some (Plain [1, 2]) \<and>
   objects (state_of (Delete segmented_driver ''/a/b'')) ''pre/0102030405060708/0000000000000001'' = None \<and>
   objects (state_of (Delete segmented_driver ''/a/b'')) ''pre/0102030405060708/content'' = None"
proof -
  let ?fi = "the (readFileInfo segmented_driver ''/a/b'')"
  have a: "readFileInfo segmented_driver ''/a/b'' \<noteq> None" "\<not> IsDir ?fi"
    "Location ?fi = ''0102030405060708''" "ObjectPrefix segmented_driver = ''pre''"
    "length (segments segmented_driver) = 2"
    "objects segmented_driver ''pre/0102030405060708/0000000000000001'' = Some (Plain [1, 2])"
    by code_simp+
  then have r: "readFileInfo segmented_driver ''/a/b'' = Some ?fi" "Location ?fi \<noteq> []"
    by auto
  from Delete_keeps_segments [OF r(1) a(2) r(2)] obtain s' where
    s': "Delete segmented_driver ''/a/b'' = Some (None, s')" "segments s' = segments segmented_driver"
      "readFileInfo s' ''/a/b'' = None"
      "\<forall>n. take (length (prependPrefix (ObjectPrefix segmented_driver) (Location ?fi) @ ''/'')) n =
            prependPrefix (ObjectPrefix segmented_driver) (Location ?fi) @ ''/'' \<longrightarrow> objects s' n = None"
    by blast
  have pre: "prependPrefix (ObjectPrefix segmented_driver) (Location ?fi) @ ''/'' = ''pre/0102030405060708/''"
    unfolding a(3,4) by code_simp
  have "objects s' ''pre/0102030405060708/0000000000000001'' = None"
    "objects s' ''pre/0102030405060708/content'' = None"
    using s'(4) unfolding pre by simp_all
  then show ?thesis
    using s'(1,2,3) a(5,6) by (simp add: succeeded_def state_of_def)
qed


subsection \<open>C10: moving a file onto itself\<close>

lemma rooted_length: "rooted_path p \<Longrightarrow> p \<noteq> ''/'' \<Longrightarrow> 2 \<le> length p"
  by (cases p; cases "tl p") (auto simp: rooted_path_def slash_def)

lemma Dir_shorter:
  assumes "rooted_path p" and "p \<noteq> ''/''"
  shows "length (Dir p) < length p"
  using Dir_rooted [OF assms(1)] rooted_length [OF assms] by auto

lemma select_file_insert_dir_other:
  "select_file s a b = None \<Longrightarrow> (d, b') \<noteq> (a, b) \<Longrightarrow> select_file (insert_dir s d b') a b = None"
  by (auto simp: insert_dir_def select_file_def find_append_eq has_key_def)

text \<open>\<^verbatim>\<open>mkdirAll\<close> on a rooted path inserts no row whose directory is as long as the path.\<close>

lemma mkdirAll_no_long_key:
  "rooted_path d \<Longrightarrow> length d \<le> length a \<Longrightarrow> select_file s a b = None \<Longrightarrow>
   mkdirAll s d = Some y \<Longrightarrow> select_file (snd y) a b = None"
proof (induction "length d" arbitrary: d s rule: less_induct)
  case less
  show ?case
  proof (cases "d = ''/'' \<or> d = []")
    case True
    with less.prems(4) have "y = (None, s)" by (subst (asm) mkdirAll.simps) auto
    then show ?thesis using less.prems(3) by simp
  next
    case False
    let ?s1 = "insert_dir s (Dir d) (Base d)"
    from False less.prems(4) have m: "mkdirAll ?s1 (Dir d) = Some y"
      by (subst (asm) mkdirAll.simps) auto
    from False have sh: "length (Dir d) < length d"
      using Dir_shorter [OF less.prems(1)] by simp
    then have "Dir d \<noteq> a" using less.prems(2) by auto
    then have "select_file ?s1 a b = None"
      using less.prems(3) by (simp add: select_file_insert_dir_other)
    from less.hyps [OF sh _ _ this m] show ?thesis
      using Dir_rooted [OF less.prems(1)] sh less.prems(2) by simp
  qed
qed

lemma update_key_absent:
  "select_file s d b = None \<Longrightarrow> update_key s d' b' d b = (None, s)"
proof -
  assume a: "select_file s d b = None"
  then have "map (\<lambda>r. if has_key d b r then r\<lparr>DirName := d', BaseName := b'\<rparr> else r) (files s) = files s"
    by (auto simp: select_file_def find_None_iff intro: map_idI)
  then show ?thesis using a by (simp add: update_key_def)
qed

text \<open>C10. For a rooted path \<open>p\<close> other than the root at which a file row exists,
  \<^verbatim>\<open>Move\<close> from \<open>p\<close> to \<open>p\<close> returns without error: the row is deleted as the
  destination, the update then matches no row, and afterwards no row exists at \<open>p\<close>, so
  that \<^verbatim>\<open>GetContent\<close> and \<^verbatim>\<open>Stat\<close> return the not-found error.\<close>

theorem Move_onto_itself:
  assumes "rooted_path p" and "p \<noteq> ''/''" and "readFileInfo s p = Some fi" and "\<not> IsDir fi"
  shows "\<exists>s'. Move s p p = Some (None, s') \<and> readFileInfo s' p = None \<and>
           GetContent s' p = Inl (PathNotFoundError p) \<and> Stat s' p = Inl (PathNotFoundError p) \<and>
           (\<exists>s1. deleteDownwards s fi = Some (None, s1) \<and>
              update_key s1 (Dir p) (Base p) (DirName fi) (BaseName fi) = (None, s1))"
proof -
  let ?s1 = "delete_file (snd (deleteBlobs s fi)) (DirName fi) (BaseName fi)"
  note k = readFileInfo_key [OF assms(3)]
  have g: "select_file ?s1 (Dir p) (Base p) = None"
    using k by (simp add: select_file_delete_same)
  have d: "rooted_path (Dir p)"
    using Dir_rooted [OF assms(1)] by simp
  from mkdirAll_returns [OF d] obtain s' where m: "mkdirAll ?s1 (Dir p) = Some (None, s')"
    by blast
  have mv: "Move s p p = Some (None, s')"
    using assms(3,4) k g m
    by (simp add: Move_def deleteDownwards_file on_success_def update_key_absent)
  have "select_file s' (Dir p) (Base p) = None"
    using mkdirAll_no_long_key [OF d _ g m] by simp
  then have "readFileInfo s' p = None"
    by (simp add: readFileInfo_def)
  moreover have "deleteDownwards s fi = Some (None, ?s1) \<and>
      update_key ?s1 (Dir p) (Base p) (DirName fi) (BaseName fi) = (None, ?s1)"
    using assms(4) k g by (simp add: deleteDownwards_file update_key_absent)
  ultimately show ?thesis
    using mv assms(2) by (auto simp: GetContent_def Stat_def Let_def)
qed

theorem Move_onto_itself_witness:
  "rooted_path ''/a/b'' \<and>
   GetContent (state_of (PutContent empty_driver ''/a/b'' [1, 2, 3])) ''/a/b'' = Inr [1, 2, 3] \<and>
   succeeded (Move (state_of (PutContent empty_driver ''/a/b'' [1, 2, 3])) ''/a/b'' ''/a/b'') \<and>
   GetContent (state_of (Move (state_of (PutContent empty_driver ''/a/b'' [1, 2, 3])) ''/a/b'' ''/a/b''))
     ''/a/b'' = Inl (PathNotFoundError ''/a/b'') \<and>
   Stat (state_of (Move (state_of (PutContent empty_driver ''/a/b'' [1, 2, 3])) ''/a/b'' ''/a/b''))
     ''/a/b'' = Inl (PathNotFoundError ''/a/b'')"
proof -
  let ?s = "state_of (PutContent empty_driver ''/a/b'' [1, 2, 3])"
  let ?fi = "the (readFileInfo ?s ''/a/b'')"
  have r: "rooted_path ''/a/b''" "''/a/b'' \<noteq> ''/''"
    by (simp_all add: rooted_path_def slash_def)
  have a: "readFileInfo ?s ''/a/b'' \<noteq> None" "\<not> IsDir ?fi" "GetContent ?s ''/a/b'' = Inr [1, 2, 3]"
    by code_simp+
  then have f: "readFileInfo ?s ''/a/b'' = Some ?fi" by simp
  from Move_onto_itself [OF r f a(2)] show ?thesis
    using r(1) a(3) by (auto simp: succeeded_def state_of_def)
qed


subsection \<open>C3: moving a file to a new directory\<close>

lemma Dir_root: "Dir ''/'' = ''/''"
  by code_simp

lemma ancestor_root: "ancestor a p \<Longrightarrow> p = ''/'' \<Longrightarrow> a = ''/''"
  by (induction rule: ancestor.induct) (simp_all add: Dir_root)

lemma ancestor_cases: "ancestor a p \<longleftrightarrow> a = Dir p \<or> ancestor a (Dir p)"
  by (auto intro: ancestor.intros elim: ancestor.cases)

lemma ancestor_rooted:
  "ancestor a p \<Longrightarrow> rooted_path p \<Longrightarrow> rooted_path a \<and> length a \<le> length (Dir p)"
proof (induction rule: ancestor.induct)
  case (parent p)
  then show ?case using Dir_rooted by simp
next
  case (above a p)
  have r: "rooted_path (Dir p)" using Dir_rooted [OF above.prems] by simp
  from above.IH [OF r] have "rooted_path a" "length a \<le> length (Dir (Dir p))" by simp_all
  moreover have "length (Dir (Dir p)) \<le> length (Dir p)"
    using Dir_rooted [OF r] Dir_shorter [OF r] by (cases "Dir p = ''/''") (auto simp: Dir_root)
  ultimately show ?case by simp
qed

lemma select_file_insert_dir_same: "select_file (insert_dir s d b) d b \<noteq> None"
  by (auto simp: insert_dir_def select_file_def find_append_eq has_key_def)

lemma mkdirAll_rows_kept:
  assumes "mkdirAll s p = Some y" and "select_file s d b = Some r"
  shows "select_file (snd y) d b = Some r"
  using mkdirAll_frame [OF assms(1)] select_file_append [OF assms(2)] by blast

text \<open>After \<^verbatim>\<open>mkdirAll\<close> a row exists at the path and at each of its ancestors, up to
  the root.\<close>

lemma mkdirAll_ancestors_aux:
  assumes "mkdirAll s p = Some y"
  shows "(\<exists>extra. files (snd y) = files s @ extra) \<and>
         (p \<noteq> [] \<longrightarrow> (\<forall>a. a = p \<or> ancestor a p \<longrightarrow>
           a = ''/'' \<or> select_file (snd y) (Dir a) (Base a) \<noteq> None))"
proof (rule mkdirAll.raw_induct [OF _ assms])
  fix f s fullPath y
  assume IH: "\<And>s p y. f s p = Some y \<Longrightarrow>
         (\<exists>extra. files (snd y) = files s @ extra) \<and>
         (p \<noteq> [] \<longrightarrow> (\<forall>a. a = p \<or> ancestor a p \<longrightarrow>
           a = ''/'' \<or> select_file (snd y) (Dir a) (Base a) \<noteq> None))"
    and eq: "(if fullPath = ''/'' \<or> fullPath = [] then Some (None, s)
              else f (insert_dir s (Dir fullPath) (Base fullPath)) (Dir fullPath)) = Some y"
  show "(\<exists>extra. files (snd y) = files s @ extra) \<and>
        (fullPath \<noteq> [] \<longrightarrow> (\<forall>a. a = fullPath \<or> ancestor a fullPath \<longrightarrow>
           a = ''/'' \<or> select_file (snd y) (Dir a) (Base a) \<noteq> None))"
  proof (cases "fullPath = ''/'' \<or> fullPath = []")
    case True
    with eq have "y = (None, s)" by auto
    then show ?thesis using True ancestor_root by auto
  next
    case False
    let ?s1 = "insert_dir s (Dir fullPath) (Base fullPath)"
    from False eq have m: "f ?s1 (Dir fullPath) = Some y" by auto
    from IH [OF m] obtain extra where x: "files (snd y) = files ?s1 @ extra"
      and anc: "\<forall>a. a = Dir fullPath \<or> ancestor a (Dir fullPath) \<longrightarrow>
           a = ''/'' \<or> select_file (snd y) (Dir a) (Base a) \<noteq> None"
      using Dir_nonempty [of fullPath] by blast
    obtain r where r: "select_file ?s1 (Dir fullPath) (Base fullPath) = Some r"
      using select_file_insert_dir_same by fastforce
    have own: "select_file (snd y) (Dir fullPath) (Base fullPath) \<noteq> None"
      using select_file_append [OF r x] by simp
    obtain extra1 where "files ?s1 = files s @ extra1"
      using insert_dir_files by blast
    then have "files (snd y) = files s @ (extra1 @ extra)"
      using x by simp
    then have "\<exists>extra. files (snd y) = files s @ extra" by blast
    then show ?thesis
      using anc own ancestor_cases [of _ fullPath] by blast
  qed
qed

lemma mkdirAll_ancestors:
  assumes "mkdirAll s (Dir q) = Some y" and "ancestor a q"
  shows "a = ''/'' \<or> select_file (snd y) (Dir a) (Base a) \<noteq> None"
  using mkdirAll_ancestors_aux [OF assms(1)] assms(2) Dir_nonempty [of q] ancestor_cases [of a q]
  by blast

lemma update_key_free:
  "select_file s d' b' = None \<Longrightarrow> fst (update_key s d' b' d b) = None"
  by (simp add: update_key_def)

lemma update_key_frame:
  "snd (update_key s d' b' d b) = s\<lparr>files := files (snd (update_key s d' b' d b))\<rparr>"
  by (simp add: update_key_def)

lemma update_key_moved:
  assumes "select_file s d b = Some r" and "select_file s d' b' = None"
  shows "select_file (snd (update_key s d' b' d b)) d' b' = Some (r\<lparr>DirName := d', BaseName := b'\<rparr>)"
proof -
  have "find (has_key d b) xs = Some r \<Longrightarrow> find (has_key d' b') xs = None \<Longrightarrow>
        find (has_key d' b') (map (\<lambda>r. if has_key d b r then r\<lparr>DirName := d', BaseName := b'\<rparr> else r) xs)
          = Some (r\<lparr>DirName := d', BaseName := b'\<rparr>)" for xs
    by (induction xs) (auto simp: has_key_def split: if_splits)
  then show ?thesis
    using assms by (simp add: update_key_def select_file_def)
qed

lemma update_key_other:
  assumes "select_file s d' b' = None" and "(a, c) \<noteq> (d', b')"
  shows "select_file (snd (update_key s d' b' d b)) a c =
           (if (a, c) = (d, b) then None else select_file s a c)"
proof -
  have "find (has_key a c) (map (\<lambda>r. if has_key d b r then r\<lparr>DirName := d', BaseName := b'\<rparr> else r) xs)
          = (if (a, c) = (d, b) then None else find (has_key a c) xs)" for xs
    using assms(2) by (induction xs) (auto simp: has_key_def)
  then show ?thesis
    using assms(1) by (simp add: update_key_def select_file_def)
qed

lemma marker_IsDir: "is_marker r \<Longrightarrow> IsDir r"
  by (simp add: is_marker_def IsDir_def)

lemma select_file_extra:
  assumes "files s' = files s @ extra" and "select_file s' d b = Some r"
  shows "select_file s d b = Some r \<or> (select_file s d b = None \<and> r \<in> set extra)"
  using assms by (auto simp: select_file_def find_append_eq find_Some_iff split: option.splits)

text \<open>What \<^verbatim>\<open>GetContent\<close> returns depends on the row and the objects only.\<close>

lemma GetContent_moved:
  assumes "readFileInfo s p = Some fi" and "readFileInfo s' p' = Some (fi\<lparr>DirName := d, BaseName := b\<rparr>)"
    and "objects s' = objects s" and "ObjectPrefix s' = ObjectPrefix s"
    and "GetContent s p = Inr c"
  shows "GetContent s' p' = Inr c"
  using assms
  by (auto simp: GetContent_def Let_def IsDir_def fi_ObjectPath_def swift_Reader_def
      split: if_splits sum.splits option.splits object.splits)

text \<open>C3, as claimed, fails where an ancestor of the destination is a file: the row of
  the file is left as it is, and \<^verbatim>\<open>Stat\<close> returns it, not a directory.\<close>

theorem Move_under_a_file_counterexample:
  "readFileInfo two_files ''/a/b'' = None \<and>
   GetContent two_files ''/s'' = Inr [2] \<and>
   succeeded (Move two_files ''/s'' ''/a/b/c'') \<and>
   GetContent (state_of (Move two_files ''/s'' ''/a/b/c'')) ''/a/b/c'' = Inr [2] \<and>
   ancestor ''/a'' ''/a/b/c'' \<and>
   map_sum id IsDir (Stat (state_of (Move two_files ''/s'' ''/a/b/c'')) ''/a'') = Inr False"
proof -
  have d: "Dir ''/a/b/c'' = ''/a/b''" "Dir ''/a/b'' = ''/a''"
    by code_simp+
  have "ancestor (Dir ''/a/b'') ''/a/b''"
    by (rule ancestor.parent)
  then have "ancestor ''/a'' (Dir ''/a/b/c'')"
    by (simp only: d)
  then have a: "ancestor ''/a'' ''/a/b/c''"
    by (rule ancestor.above)
  have "readFileInfo two_files ''/a/b'' = None"
    "GetContent two_files ''/s'' = Inr [2]"
    "succeeded (Move two_files ''/s'' ''/a/b/c'')"
    "GetContent (state_of (Move two_files ''/s'' ''/a/b/c'')) ''/a/b/c'' = Inr [2]"
    "map_sum id IsDir (Stat (state_of (Move two_files ''/s'' ''/a/b/c'')) ''/a'') = Inr False"
    by code_simp+
  then show ?thesis using a by simp
qed

text \<open>C3, amended. For a file at \<open>src\<close> that \<^verbatim>\<open>GetContent\<close> returns as \<open>c\<close> and a
  rooted path \<open>dst\<close> at which no row exists, \<^verbatim>\<open>Move\<close> returns without error;
  afterwards \<^verbatim>\<open>Stat\<close> succeeds on every ancestor of \<open>dst\<close>, with a directory or
  with what it returned before the move; \<^verbatim>\<open>GetContent\<close> returns \<open>c\<close> at \<open>dst\<close>
  and the not-found error at \<open>src\<close>.\<close>

theorem Move_to_new_directory:
  assumes "rooted_path dst" and "readFileInfo s src = Some fi" and "\<not> IsDir fi"
    and "readFileInfo s dst = None" and "GetContent s src = Inr c"
  shows "\<exists>s'. Move s src dst = Some (None, s') \<and>
           (\<forall>a. ancestor a dst \<longrightarrow> (\<exists>d. Stat s' a = Inr d \<and> (IsDir d \<or> Stat s a = Inr d))) \<and>
           GetContent s' dst = Inr c \<and>
           GetContent s' src = Inl (PathNotFoundError src)"
proof -
  let ?u = "update_key s (Dir dst) (Base dst) (DirName fi) (BaseName fi)"
  define s2 where "s2 = snd ?u"
  note k = readFileInfo_key [OF assms(2)]
  have dn: "select_file s (Dir dst) (Base dst) = None"
    using assms(4) by (simp add: readFileInfo_def)
  have sk: "select_file s (Dir src) (Base src) = Some fi"
    using assms(2) by (simp add: readFileInfo_def)
  have ne: "(Dir src, Base src) \<noteq> (Dir dst, Base dst)"
    using dn sk by auto
  have u: "?u = (None, s2)"
    using update_key_free [OF dn] by (simp add: s2_def prod_eq_iff)
  have f2: "s2 = s\<lparr>files := files s2\<rparr>"
    unfolding s2_def by (rule update_key_frame)
  have d: "rooted_path (Dir dst)"
    using Dir_rooted [OF assms(1)] by simp
  from mkdirAll_returns [OF d] obtain s' where m: "mkdirAll s2 (Dir dst) = Some (None, s')"
    by blast
  have mv: "Move s src dst = Some (None, s')"
    using assms(2,4) u m k by (simp add: Move_def on_success_def)
  from mkdirAll_frame [OF m] obtain extra where f': "s' = s2\<lparr>files := files s'\<rparr>"
    and x: "files s' = files s2 @ extra" "\<forall>r \<in> set extra. is_marker r"
    by auto
  have fr: "objects s' = objects s" "ObjectPrefix s' = ObjectPrefix s"
    using files_frame(2,4) [OF f'] files_frame(2,4) [OF f2] by simp_all
  have moved: "select_file s2 (Dir dst) (Base dst) = Some (fi\<lparr>DirName := Dir dst, BaseName := Base dst\<rparr>)"
    unfolding s2_def using update_key_moved [OF sk dn] k by simp
  then have "readFileInfo s' dst = Some (fi\<lparr>DirName := Dir dst, BaseName := Base dst\<rparr>)"
    using select_file_append [OF _ x(1)] by (simp add: readFileInfo_def)
  from GetContent_moved [OF assms(2) this fr assms(5)] have g1: "GetContent s' dst = Inr c" .
  have other: "select_file s2 a b = (if (a, b) = (Dir src, Base src) then None else select_file s a b)"
    if "(a, b) \<noteq> (Dir dst, Base dst)" for a b
    unfolding s2_def using update_key_other [OF dn that] k by simp
  have "select_file s2 (Dir src) (Base src) = None"
    using other [OF ne] by simp
  then have "readFileInfo s' src = None \<or> (\<exists>r. readFileInfo s' src = Some r \<and> IsDir r)"
    using select_file_extra [OF x(1), of "Dir src" "Base src"] x(2) marker_IsDir
    unfolding readFileInfo_def by (metis not_None_eq option.distinct(1))
  then have g2: "GetContent s' src = Inl (PathNotFoundError src)"
    by (auto simp: GetContent_def Let_def)
  have anc: "\<exists>d. Stat s' a = Inr d \<and> (IsDir d \<or> Stat s a = Inr d)" if a: "ancestor a dst" for a
  proof (cases "a = ''/''")
    case True
    then show ?thesis by (simp add: Stat_def root_info_def IsDir_def)
  next
    case False
    from mkdirAll_ancestors [OF m a] False obtain r where
      r: "select_file s' (Dir a) (Base a) = Some r" by auto
    from ancestor_rooted [OF a assms(1)] have ra: "rooted_path a" "length a \<le> length (Dir dst)"
      by simp_all
    have "length (Dir a) < length a" using Dir_shorter [OF ra(1) False] .
    then have nd: "(Dir a, Base a) \<noteq> (Dir dst, Base dst)" using ra(2) by auto
    from select_file_extra [OF x(1) r] consider "select_file s2 (Dir a) (Base a) = Some r" | "r \<in> set extra"
      by blast
    then have "IsDir r \<or> select_file s (Dir a) (Base a) = Some r"
    proof cases
      case 1
      then show ?thesis using other [OF nd] by (simp split: if_splits)
    next
      case 2
      then show ?thesis using x(2) marker_IsDir by blast
    qed
    then show ?thesis
      using r False by (auto simp: Stat_def readFileInfo_def)
  qed
  show ?thesis
    using mv anc g1 g2 by blast
qed


theorem Move_to_new_directory_witness:
  "rooted_path ''/d/e/f'' \<and>
   ancestor ''/d/e'' ''/d/e/f'' \<and>
   Stat two_files ''/d/e'' = Inl (PathNotFoundError ''/d/e'') \<and>
   succeeded (Move two_files ''/s'' ''/d/e/f'') \<and>
   (\<exists>d. Stat (state_of (Move two_files ''/s'' ''/d/e/f'')) ''/d/e'' = Inr d \<and> IsDir d) \<and>
   GetContent (state_of (Move two_files ''/s'' ''/d/e/f'')) ''/d/e/f'' = Inr [2] \<and>
   GetContent (state_of (Move two_files ''/s'' ''/d/e/f'')) ''/s'' = Inl (PathNotFoundError ''/s'')"
proof -
  let ?fi = "the (readFileInfo two_files ''/s'')"
  have r: "rooted_path ''/d/e/f''"
    by (simp add: rooted_path_def slash_def)
  have c: "readFileInfo two_files ''/s'' \<noteq> None" "\<not> IsDir ?fi"
    "readFileInfo two_files ''/d/e/f'' = None" "GetContent two_files ''/s'' = Inr [2]"
    "Stat two_files ''/d/e'' = Inl (PathNotFoundError ''/d/e'')" "Dir ''/d/e/f'' = ''/d/e''"
    by code_simp+
  then have f: "readFileInfo two_files ''/s'' = Some ?fi" by simp
  have a: "ancestor ''/d/e'' ''/d/e/f''"
    using ancestor.parent [of "''/d/e/f''"] by (simp only: c(6))
  from Move_to_new_directory [OF r f c(2,3,4)] obtain s' where
    s': "Move two_files ''/s'' ''/d/e/f'' = Some (None, s')"
      "\<forall>a. ancestor a ''/d/e/f'' \<longrightarrow> (\<exists>d. Stat s' a = Inr d \<and> (IsDir d \<or> Stat two_files a = Inr d))"
      "GetContent s' ''/d/e/f'' = Inr [2]" "GetContent s' ''/s'' = Inl (PathNotFoundError ''/s'')"
    by blast
  from s'(2) a c(5) have "\<exists>d. Stat s' ''/d/e'' = Inr d \<and> IsDir d"
    by (metis Inl_Inr_False)
  then show ?thesis
    using r a c(5) s'(1,3,4) by (simp add: succeeded_def state_of_def)
qed


subsection \<open>C7: moving a directory leaves its children behind\<close>

lemma update_key_rows_kept:
  "r \<in> set (files s) \<Longrightarrow> \<not> has_key d b r \<Longrightarrow> r \<in> set (files (snd (update_key s d' b' d b)))"
  by (auto simp: update_key_def image_iff intro!: bexI [of _ r])

text \<open>The rows that \<^verbatim>\<open>mkdirAll\<close> adds are markers at the keys of the path and of its
  ancestors.\<close>

lemma mkdirAll_markers:
  assumes "mkdirAll s p = Some y"
  shows "\<exists>extra. files (snd y) = files s @ extra \<and>
           (\<forall>m \<in> set extra. is_marker m \<and>
              (\<exists>a. (a = p \<or> ancestor a p) \<and> a \<noteq> ''/'' \<and> DirName m = Dir a \<and> BaseName m = Base a))"
proof (rule mkdirAll.raw_induct [OF _ assms])
  fix f s fullPath y
  assume IH: "\<And>s p y. f s p = Some y \<Longrightarrow>
         \<exists>extra. files (snd y) = files s @ extra \<and>
           (\<forall>m \<in> set extra. is_marker m \<and>
              (\<exists>a. (a = p \<or> ancestor a p) \<and> a \<noteq> ''/'' \<and> DirName m = Dir a \<and> BaseName m = Base a))"
    and eq: "(if fullPath = ''/'' \<or> fullPath = [] then Some (None, s)
              else f (insert_dir s (Dir fullPath) (Base fullPath)) (Dir fullPath)) = Some y"
  show "\<exists>extra. files (snd y) = files s @ extra \<and>
           (\<forall>m \<in> set extra. is_marker m \<and>
              (\<exists>a. (a = fullPath \<or> ancestor a fullPath) \<and> a \<noteq> ''/'' \<and>
                 DirName m = Dir a \<and> BaseName m = Base a))"
  proof (cases "fullPath = ''/'' \<or> fullPath = []")
    case True
    with eq have "y = (None, s)" by auto
    then show ?thesis by simp
  next
    case False
    let ?s1 = "insert_dir s (Dir fullPath) (Base fullPath)"
    let ?ok = "\<lambda>m. is_marker m \<and>
              (\<exists>a. (a = fullPath \<or> ancestor a fullPath) \<and> a \<noteq> ''/'' \<and>
                 DirName m = Dir a \<and> BaseName m = Base a)"
    from False eq have m: "f ?s1 (Dir fullPath) = Some y" by auto
    from IH [OF m] obtain extra where x: "files (snd y) = files ?s1 @ extra"
      and mk: "\<forall>m \<in> set extra. is_marker m \<and>
              (\<exists>a. (a = Dir fullPath \<or> ancestor a (Dir fullPath)) \<and> a \<noteq> ''/'' \<and>
                 DirName m = Dir a \<and> BaseName m = Base a)"
      by blast
    have 2: "?ok m" if "m \<in> set extra" for m
      using mk that ancestor_cases [of _ fullPath] by blast
    obtain extra1 where x1: "files ?s1 = files s @ extra1"
      and k1: "\<forall>m \<in> set extra1. is_marker m \<and> DirName m = Dir fullPath \<and> BaseName m = Base fullPath"
      by (cases "select_file s (Dir fullPath) (Base fullPath) = None")
        (simp_all add: insert_dir_def is_marker_def)
    have 1: "?ok m" if "m \<in> set extra1" for m
      using k1 that False by blast
    have "files (snd y) = files s @ (extra1 @ extra)"
      using x x1 by simp
    moreover have "\<forall>m \<in> set (extra1 @ extra). ?ok m"
      using 1 2 by auto
    ultimately show ?thesis by blast
  qed
qed

lemma select_children_rekeyed:
  assumes "d' \<noteq> p"
  shows "filter (\<lambda>r. DirName r = p)
           (map (\<lambda>r. if has_key d b r then r\<lparr>DirName := d', BaseName := b'\<rparr> else r) xs) =
         filter (\<lambda>r. \<not> has_key d b r) (filter (\<lambda>r. DirName r = p) xs)"
  using assms by (induction xs) auto

text \<open>C7. When a directory at \<open>src\<close> is moved to a rooted path \<open>dst\<close>, not the root, at
  which no row exists and which is not the old full path of the directory, \<^verbatim>\<open>Move\<close>
  returns without error and the state it leaves differs from the state before in the table
  \<^verbatim>\<open>files\<close> only: the table is the old one with the key of the directory's own row
  changed to the key of \<open>dst\<close>, followed by the markers added at ancestors of \<open>dst\<close>. So a
  child of the directory is still in the table, its directory the old full path, and is
  listed under the old path; \<^verbatim>\<open>List\<close> of \<open>dst\<close> lists the rows that were under \<open>dst\<close>
  before, other than the directory itself, and so not the child; and no row is left at the
  old key unless it is the key of an ancestor of \<open>dst\<close>.\<close>

theorem Move_directory_leaves_children:
  assumes "rooted_path dst" and "dst \<noteq> ''/''" and "readFileInfo s src = Some fi" and "IsDir fi"
    and "readFileInfo s dst = None" and "dst \<noteq> Path fi"
    and "c \<in> set (files s)" and "DirName c = Path fi" and "\<not> has_key (DirName fi) (BaseName fi) c"
  shows "\<exists>s' extra. Move s src dst = Some (None, s') \<and>
           s' = s\<lparr>files :=
                  map (\<lambda>r. if has_key (DirName fi) (BaseName fi) r
                           then r\<lparr>DirName := Dir dst, BaseName := Base dst\<rparr> else r) (files s) @ extra\<rparr> \<and>
           (\<forall>m \<in> set extra. is_marker m \<and>
              (\<exists>a. ancestor a dst \<and> a \<noteq> ''/'' \<and> DirName m = Dir a \<and> BaseName m = Base a)) \<and>
           readFileInfo s' dst = Some (fi\<lparr>DirName := Dir dst, BaseName := Base dst\<rparr>) \<and>
           c \<in> set (select_children s' (Path fi)) \<and>
           select_children s' dst =
             filter (\<lambda>r. \<not> has_key (DirName fi) (BaseName fi) r) (select_children s dst) \<and>
           c \<notin> set (select_children s' dst) \<and>
           List_paths s' dst =
             Inr (map (\<lambda>r. Join dst (BaseName r))
                    (filter (\<lambda>r. \<not> has_key (DirName fi) (BaseName fi) r) (select_children s dst))) \<and>
           ((\<forall>a. ancestor a dst \<longrightarrow> (Dir a, Base a) \<noteq> (Dir src, Base src)) \<longrightarrow>
              readFileInfo s' src = None)"
proof -
  let ?rekey = "\<lambda>r. if has_key (DirName fi) (BaseName fi) r
                     then r\<lparr>DirName := Dir dst, BaseName := Base dst\<rparr> else r"
  let ?absent = "\<lambda>r. \<not> has_key (DirName fi) (BaseName fi) r"
  define s2 where "s2 = s\<lparr>files := map ?rekey (files s)\<rparr>"
  note k = readFileInfo_key [OF assms(3)]
  have dn: "select_file s (Dir dst) (Base dst) = None"
    using assms(5) by (simp add: readFileInfo_def)
  have sk: "select_file s (DirName fi) (BaseName fi) = Some fi"
    using assms(3) k by (simp add: readFileInfo_def)
  have ne: "(Dir dst, Base dst) \<noteq> (Dir src, Base src)"
    using dn sk k by auto
  have u: "update_key s (Dir dst) (Base dst) (DirName fi) (BaseName fi) = (None, s2)"
    using dn by (simp add: update_key_def s2_def)
  have d: "rooted_path (Dir dst)"
    using Dir_rooted [OF assms(1)] by simp
  have sh: "length (Dir dst) < length dst"
    by (rule Dir_shorter [OF assms(1,2)])
  from mkdirAll_returns [OF d] obtain s' where m: "mkdirAll s2 (Dir dst) = Some (None, s')"
    by blast
  have mv: "Move s src dst = Some (None, s')"
    using assms(3,5) u m by (simp add: Move_def on_success_def)
  from mkdirAll_markers [OF m] obtain extra where x: "files s' = files s2 @ extra"
    and mk: "\<forall>m \<in> set extra. is_marker m \<and>
              (\<exists>a. (a = Dir dst \<or> ancestor a (Dir dst)) \<and> a \<noteq> ''/'' \<and>
                 DirName m = Dir a \<and> BaseName m = Base a)"
    by auto
  have mk': "\<forall>m \<in> set extra. is_marker m \<and>
              (\<exists>a. ancestor a dst \<and> a \<noteq> ''/'' \<and> DirName m = Dir a \<and> BaseName m = Base a)"
    using mk ancestor_cases [of _ dst] by blast
  from mkdirAll_frame [OF m] have "s' = s2\<lparr>files := files s'\<rparr>" by simp
  then have fr: "s' = s\<lparr>files := map ?rekey (files s) @ extra\<rparr>"
    using x by (simp add: s2_def)
  have fs: "files s' = map ?rekey (files s) @ extra"
    using x by (simp add: s2_def)
  have short: "DirName m \<noteq> dst" if "m \<in> set extra" for m
  proof -
    from mk' that obtain a where a: "ancestor a dst" "a \<noteq> ''/''" "DirName m = Dir a"
      by blast
    from ancestor_rooted [OF a(1) assms(1)] have ra: "rooted_path a" "length a \<le> length (Dir dst)"
      by simp_all
    from Dir_shorter [OF ra(1) a(2)] ra(2) sh a(3) show ?thesis by auto
  qed
  have "select_file s2 (Dir dst) (Base dst) = Some (fi\<lparr>DirName := Dir dst, BaseName := Base dst\<rparr>)"
    using update_key_moved [OF sk dn] u by simp
  then have own: "readFileInfo s' dst = Some (fi\<lparr>DirName := Dir dst, BaseName := Base dst\<rparr>)"
    using select_file_append [OF _ x] by (simp add: readFileInfo_def)
  have "?rekey c \<in> ?rekey ` set (files s)"
    using assms(7) by (rule imageI)
  then have "c \<in> ?rekey ` set (files s)"
    using assms(9) by simp
  then have "c \<in> set (files s')"
    unfolding fs by simp
  then have kept: "c \<in> set (select_children s' (Path fi))"
    using assms(8) by (simp add: select_children_def)
  have none: "filter (\<lambda>r. DirName r = dst) extra = []"
    using short by (auto simp: filter_empty_conv)
  have "Dir dst \<noteq> dst" using sh by auto
  from select_children_rekeyed [OF this, of "DirName fi" "BaseName fi" "Base dst" "files s"]
  have ch: "select_children s' dst = filter ?absent (select_children s dst)"
    unfolding select_children_def fs filter_append none by simp
  have other: "c \<notin> set (select_children s' dst)"
    using assms(6,8) by (simp add: select_children_def)
  have lst: "List_paths s' dst =
      Inr (map (\<lambda>r. Join dst (BaseName r)) (filter ?absent (select_children s dst)))"
    by (simp add: List_paths_def ch)
  have old: "readFileInfo s' src = None"
    if free: "\<forall>a. ancestor a dst \<longrightarrow> (Dir a, Base a) \<noteq> (Dir src, Base src)"
  proof -
    have moved: "\<not> has_key (Dir src) (Base src) (?rekey r)" for r
      using ne k by (simp add: has_key_def)
    have added: "\<not> has_key (Dir src) (Base src) r" if "r \<in> set extra" for r
    proof -
      from mk' that obtain a where "ancestor a dst" "DirName r = Dir a" "BaseName r = Base a"
        by blast
      with free show ?thesis by (simp add: has_key_def)
    qed
    have "\<not> has_key (Dir src) (Base src) r" if "r \<in> set (files s')" for r
    proof -
      from that have "r \<in> ?rekey ` set (files s) \<union> set extra"
        unfolding fs by (simp only: set_append set_map)
      then consider x where "r = ?rekey x" | "r \<in> set extra"
        by blast
      then show ?thesis
      proof cases
        case 1
        show ?thesis unfolding 1 by (rule moved)
      next
        case 2
        then show ?thesis by (rule added)
      qed
    qed
    then show ?thesis
      by (simp add: readFileInfo_def select_file_def find_None_iff)
  qed
  show ?thesis
  proof (intro exI [of _ s'] exI [of _ extra] conjI)
    show "Move s src dst = Some (None, s')" by (rule mv)
    show "s' = s\<lparr>files := map ?rekey (files s) @ extra\<rparr>" by (rule fr)
    show "\<forall>m \<in> set extra. is_marker m \<and>
              (\<exists>a. ancestor a dst \<and> a \<noteq> ''/'' \<and> DirName m = Dir a \<and> BaseName m = Base a)"
      by (rule mk')
    show "readFileInfo s' dst = Some (fi\<lparr>DirName := Dir dst, BaseName := Base dst\<rparr>)"
      by (rule own)
    show "c \<in> set (select_children s' (Path fi))" by (rule kept)
    show "select_children s' dst = filter ?absent (select_children s dst)" by (rule ch)
    show "c \<notin> set (select_children s' dst)" by (rule other)
    show "List_paths s' dst =
             Inr (map (\<lambda>r. Join dst (BaseName r)) (filter ?absent (select_children s dst)))"
      by (rule lst)
    show "(\<forall>a. ancestor a dst \<longrightarrow> (Dir a, Base a) \<noteq> (Dir src, Base src)) \<longrightarrow>
              readFileInfo s' src = None"
      using old by blast
  qed
qed

theorem Move_directory_leaves_children_witness:
  "rooted_path ''/e'' \<and>
   map_sum id IsDir (Stat nested_file ''/d'') = Inr True \<and>
   List_paths nested_file ''/d'' = Inr [''/d/f''] \<and>
   succeeded (Move nested_file ''/d'' ''/e'') \<and>
   map (\<lambda>r. (DirName r, BaseName r)) (files (state_of (Move nested_file ''/d'' ''/e''))) =
     [(''/d'', ''f''), (''/'', ''e'')] \<and>
   map_sum id IsDir (Stat (state_of (Move nested_file ''/d'' ''/e'')) ''/e'') = Inr True \<and>
   hd (files nested_file) \<in> set (select_children (state_of (Move nested_file ''/d'' ''/e'')) ''/d'') \<and>
   hd (files nested_file) \<notin> set (select_children (state_of (Move nested_file ''/d'' ''/e'')) ''/e'') \<and>
   List_paths (state_of (Move nested_file ''/d'' ''/e'')) ''/e'' = Inr [] \<and>
   List_paths (state_of (Move nested_file ''/d'' ''/e'')) ''/d'' = Inr [''/d/f''] \<and>
   Stat (state_of (Move nested_file ''/d'' ''/e'')) ''/d'' = Inl (PathNotFoundError ''/d'')"
proof -
  let ?fi = "the (readFileInfo nested_file ''/d'')"
  let ?c = "hd (files nested_file)"
  have r: "rooted_path ''/e''" "''/e'' \<noteq> ''/''"
    by (simp_all add: rooted_path_def slash_def)
  have a: "readFileInfo nested_file ''/d'' \<noteq> None" "IsDir ?fi" "readFileInfo nested_file ''/e'' = None"
    "''/e'' \<noteq> Path ?fi" "files nested_file \<noteq> []" "DirName ?c = Path ?fi"
    "\<not> has_key (DirName ?fi) (BaseName ?fi) ?c" "Path ?fi = ''/d''"
    "List_paths nested_file ''/d'' = Inr [''/d/f'']" "select_children nested_file ''/e'' = []"
    "map_sum id IsDir (Stat nested_file ''/d'') = Inr True"
    by code_simp+
  then have f: "readFileInfo nested_file ''/d'' = Some ?fi" and c: "?c \<in> set (files nested_file)"
    by simp_all
  have k: "Dir ''/e'' = ''/''" "(Dir ''/'', Base ''/'') \<noteq> (Dir ''/d'', Base ''/d'')"
    by code_simp+
  have anc: "(Dir a, Base a) \<noteq> (Dir ''/d'', Base ''/d'')" if "ancestor a ''/e''" for a
  proof -
    from that ancestor_cases [of a "''/e''"] have "a = ''/'' \<or> ancestor a ''/''"
      unfolding k(1) by simp
    with ancestor_root have "a = ''/''" by blast
    with k(2) show ?thesis by simp
  qed
  from Move_directory_leaves_children [OF r f a(2,3,4) c a(6,7)] obtain s' where
    s': "Move nested_file ''/d'' ''/e'' = Some (None, s')"
      "readFileInfo s' ''/e'' = Some (?fi\<lparr>DirName := Dir ''/e'', BaseName := Base ''/e''\<rparr>)"
      "?c \<in> set (select_children s' (Path ?fi))" "?c \<notin> set (select_children s' ''/e'')"
      "List_paths s' ''/e'' =
         Inr (map (\<lambda>r. Join ''/e'' (BaseName r))
                (filter (\<lambda>r. \<not> has_key (DirName ?fi) (BaseName ?fi) r) (select_children nested_file ''/e'')))"
      "(\<forall>a. ancestor a ''/e'' \<longrightarrow> (Dir a, Base a) \<noteq> (Dir ''/d'', Base ''/d'')) \<longrightarrow>
         readFileInfo s' ''/d'' = None"
    by (elim exE conjE) (rule that)
  from s'(6) anc have gone: "readFileInfo s' ''/d'' = None" by blast
  have st: "state_of (Move nested_file ''/d'' ''/e'') = s'"
    using s'(1) by (simp add: state_of_def)
  have l: "map (\<lambda>r. (DirName r, BaseName r)) (files (state_of (Move nested_file ''/d'' ''/e''))) =
             [(''/d'', ''f''), (''/'', ''e'')]"
    "List_paths (state_of (Move nested_file ''/d'' ''/e'')) ''/d'' = Inr [''/d/f'']"
    by code_simp+
  have sc: "succeeded (Move nested_file ''/d'' ''/e'')"
    using s'(1) by (simp add: succeeded_def)
  have 1: "map_sum id IsDir (Stat s' ''/e'') = Inr True"
    using s'(2) a(2) by (simp add: Stat_def IsDir_def)
  have 2: "List_paths s' ''/e'' = Inr []"
    using s'(5) a(10) by simp
  have 3: "Stat s' ''/d'' = Inl (PathNotFoundError ''/d'')"
    using gone by (simp add: Stat_def)
  show ?thesis
    unfolding st using r(1) a(9,11) s'(3,4) l [unfolded st] sc 1 2 3 a(8) by simp
qed


subsection \<open>What recursive deletion removes\<close>

lemma shrinks_blobs_gone: "shrinks u u' \<Longrightarrow> blobs_gone u r \<Longrightarrow> blobs_gone u' r"
  unfolding shrinks_def blobs_gone_def by metis

lemma shrinks_deleted_with_children:
  assumes "shrinks u u'" and "files u' = files u" and "deleted_with_children s u"
  shows "deleted_with_children s u'"
  using assms(2,3) shrinks_blobs_gone [OF assms(1)]
  unfolding deleted_with_children_def by simp

lemma select_file_None_notin:
  "select_file s (DirName r) (BaseName r) = None \<Longrightarrow> r \<notin> set (files s)"
  by (auto simp: select_file_def find_None_iff has_key_def)

lemma primary_key_same:
  assumes "primary_key s" and "r \<in> set (files s)" and "q \<in> set (files s)"
    and "DirName r = DirName q" and "BaseName r = BaseName q"
  shows "r = q"
proof -
  have "inj_on (\<lambda>r. (DirName r, BaseName r)) (set (files s))"
    using assms(1) by (simp add: primary_key_def distinct_map)
  then show ?thesis using assms(2-) by (auto dest: inj_onD)
qed

lemma below_in_files: "below s fi r \<Longrightarrow> r \<in> set (files s)"
  by (induction rule: below.induct) simp_all

lemma below_mono:
  "below u' c r \<Longrightarrow> set (files u') \<subseteq> set (files u) \<Longrightarrow> below u c r"
proof (induction rule: below.induct)
  case (child r)
  then show ?case by (auto intro: below.child)
next
  case (deeper q r)
  then show ?case by (auto intro: below.deeper)
qed

lemma below_step:
  "below u c r \<Longrightarrow> IsDir fi \<Longrightarrow> c \<in> set (files u) \<Longrightarrow> DirName c = Path fi \<Longrightarrow> below u fi r"
proof (induction rule: below.induct)
  case (child r)
  from below.child [OF child.prems] have "below u fi c" .
  from below.deeper [OF this child.hyps] show ?case .
next
  case (deeper q r)
  from below.deeper [OF deeper.IH [OF deeper.prems] deeper.hyps(2,3,4)] show ?case .
qed

text \<open>A row that the loop over the children deletes has the key of one of them or is
  below one of them.\<close>

lemma for_rows_within:
  assumes "\<And>u r y. f u r = Some y \<Longrightarrow> deleted_below u r y"
    and "for_rows f rs u = Some y"
    and "r \<in> set (files u)" and "r \<notin> set (files (snd y))"
  shows "\<exists>c \<in> set rs. has_key (DirName c) (BaseName c) r \<or> below u c r"
  using assms(2,3,4)
proof (induction rs arbitrary: u)
  case Nil
  then show ?case by auto
next
  case (Cons c rs)
  from Cons.prems(1) on_success_Some [of "f u c" "for_rows f rs" y]
  consider e u' where "f u c = Some (Some e, u')" "y = (Some e, u')"
    | u' where "f u c = Some (None, u')" "for_rows f rs u' = Some y"
    by auto
  then show ?case
  proof cases
    case 1
    from assms(1) [OF 1(1)] have
      "\<forall>r \<in> set (files u). r \<notin> set (files u') \<longrightarrow> has_key (DirName c) (BaseName c) r \<or> below u c r"
      unfolding deleted_below_def by simp
    with Cons.prems(2,3) 1(2) show ?thesis by auto
  next
    case 2
    from assms(1) [OF 2(1)] have
      w: "\<forall>r \<in> set (files u). r \<notin> set (files u') \<longrightarrow> has_key (DirName c) (BaseName c) r \<or> below u c r"
      and sh: "shrinks u u'"
      unfolding deleted_below_def deleted_def by simp_all
    show ?thesis
    proof (cases "r \<in> set (files u')")
      case False
      with w Cons.prems(2) show ?thesis by auto
    next
      case True
      from Cons.IH [OF 2(2) True Cons.prems(3)] obtain c' where
        c': "c' \<in> set rs" "has_key (DirName c') (BaseName c') r \<or> below u' c' r"
        by blast
      from c'(2) below_mono [OF _ shrinks_files [OF sh]]
      have "has_key (DirName c') (BaseName c') r \<or> below u c' r" by blast
      with c'(1) show ?thesis by auto
    qed
  qed
qed

lemma for_rows_deleted_below:
  assumes "\<And>u r y. f u r = Some y \<Longrightarrow> deleted_below u r y"
    and "for_rows f rs u = Some y"
    and "primary_key s" and "shrinks s u" and "set rs \<subseteq> set (files s)"
    and "deleted_with_children s u"
  shows "deleted_with_children s (snd y)"
  using assms(2,4,6,5)
proof (induction rs arbitrary: u)
  case Nil
  then show ?case by auto
next
  case (Cons r rs)
  from Cons.prems(1) on_success_Some [of "f u r" "for_rows f rs" y]
  consider e u' where "f u r = Some (Some e, u')"
    | u' where "f u r = Some (None, u')" "for_rows f rs u' = Some y"
    by auto
  then show ?case
  proof cases
    case 1
    from assms(1) [OF 1] have "fst (Some e, u') = None"
      unfolding deleted_below_def deleted_def by blast
    then show ?thesis by simp
  next
    case 2
    from assms(1) [OF 2(1)] have d: "shrinks u u'"
      and cl: "\<forall>s. primary_key s \<and> shrinks s u \<and> r \<in> set (files s) \<and> deleted_with_children s u \<longrightarrow>
               deleted_with_children s u'"
      unfolding deleted_below_def deleted_def by simp_all
    from cl assms(3) Cons.prems(2,3,4) have c: "deleted_with_children s u'"
      by simp
    from Cons.IH [OF 2(2) shrinks_trans [OF Cons.prems(2) d] c] Cons.prems(4)
    show ?thesis by simp
  qed
qed


text \<open>The invariant of the recursion of \<^verbatim>\<open>deleteDownwards\<close>.\<close>

lemma deleteDownwards_deleted_below:
  assumes "deleteDownwards u fi = Some y"
  shows "deleted_below u fi y"
proof (rule deleteDownwards.raw_induct [OF _ assms])
  fix f u fi y
  assume IH: "\<And>u r y. f u r = Some y \<Longrightarrow> deleted_below u r y"
    and eq: "on_success (Some (deleteBlobs u fi)) (\<lambda>s1.
       on_success
         (if IsDir fi then for_rows f (select_children s1 (Path fi)) s1 else Some (None, s1))
         (\<lambda>s2. Some (None, delete_file s2 (DirName fi) (BaseName fi)))) = Some y"
  have IH': "\<And>u r y. f u r = Some y \<Longrightarrow> deleted u r y"
    using IH by (simp add: deleted_below_def)
  define u1 where "u1 = snd (deleteBlobs u fi)"
  have b: "deleteBlobs u fi = (None, u1)"
    by (simp add: deleteBlobs_def u1_def)
  have sh1: "shrinks u u1" and f1: "files u1 = files u"
    unfolding u1_def by (rule shrinks_deleteBlobs) (simp add: deleteBlobs_frame)
  have bg1: "blobs_gone u1 fi"
    by (simp add: blobs_gone_def u1_def deleteBlobs_def swift_DeleteAll_def)
  let ?cs = "select_children u1 (Path fi)"
  let ?loop = "if IsDir fi then for_rows f ?cs u1 else Some (None, u1)"
  from eq have eq2: "on_success ?loop (\<lambda>s2. Some (None, delete_file s2 (DirName fi) (BaseName fi))) = Some y"
    unfolding b by (simp add: on_success_def)
  have l: "fst z = None \<and> shrinks u1 (snd z)" if "?loop = Some z" for z
    using that for_rows_deleted [OF IH', of f ?cs u1 z]
    by (auto simp: shrinks_refl split: if_splits)
  from on_success_Some [OF eq2] l obtain u2 where
    u2: "?loop = Some (None, u2)" "y = (None, delete_file u2 (DirName fi) (BaseName fi))"
    by fastforce
  from l [OF u2(1)] have sh2: "shrinks u1 u2" by simp
  let ?u3 = "delete_file u2 (DirName fi) (BaseName fi)"
  have sh3: "shrinks u ?u3"
    using shrinks_trans [OF sh1] shrinks_trans [OF sh2 shrinks_delete_file] by blast
  have d: "deleted u fi y"
    using sh3 by (simp add: deleted_def u2(2) select_file_delete_same)
  have empty: "select_children u2 (Path fi) = []" if dir: "IsDir fi"
  proof -
    from u2(1) dir have lp: "for_rows f ?cs u1 = Some (None, u2)" by simp
    from for_rows_deleted [OF IH' lp] have gone:
      "\<forall>r \<in> set ?cs. select_file u2 (DirName r) (BaseName r) = None" by simp
    have "r \<notin> set (files u2)" if "DirName r = Path fi" for r
    proof
      assume r: "r \<in> set (files u2)"
      with shrinks_files [OF sh2] have "r \<in> set (files u1)" by blast
      with that have "r \<in> set ?cs" by (simp add: select_children_def)
      with gone have "select_file u2 (DirName r) (BaseName r) = None" by blast
      from select_file_None_notin [OF this] r show False by simp
    qed
    then show ?thesis by (auto simp: select_children_def filter_empty_conv)
  qed
  have closed: "deleted_with_children s ?u3"
    if s: "primary_key s" "shrinks s u" "fi \<in> set (files s)" "deleted_with_children s u" for s
  proof -
    have c1: "deleted_with_children s u1"
      by (rule shrinks_deleted_with_children [OF sh1 f1 s(4)])
    have ss1: "shrinks s u1" by (rule shrinks_trans [OF s(2) sh1])
    have c2: "deleted_with_children s u2"
    proof (cases "IsDir fi")
      case True
      with u2(1) have lp: "for_rows f ?cs u1 = Some (None, u2)" by simp
      have "set ?cs \<subseteq> set (files s)"
        using shrinks_files [OF ss1] by (auto simp: select_children_def)
      from for_rows_deleted_below [OF IH lp s(1) ss1 this c1] show ?thesis by simp
    next
      case False
      with u2(1) c1 show ?thesis by simp
    qed
    have o3: "objects ?u3 = objects u2" "ObjectPrefix ?u3 = ObjectPrefix u2"
      by (simp_all add: delete_file_def)
    have sh13: "shrinks u1 ?u3"
      by (rule shrinks_trans [OF sh2 shrinks_delete_file])
    show ?thesis
      unfolding deleted_with_children_def
    proof (intro ballI impI)
      fix r assume r: "r \<in> set (files s)" "r \<notin> set (files ?u3)"
      show "blobs_gone ?u3 r \<and>
            (IsDir r \<longrightarrow> (\<forall>c \<in> set (files s). DirName c = Path r \<longrightarrow> c \<notin> set (files ?u3)))"
      proof (cases "r \<in> set (files u2)")
        case False
        with c2 r(1) have "blobs_gone u2 r"
          and ch: "IsDir r \<longrightarrow> (\<forall>c \<in> set (files s). DirName c = Path r \<longrightarrow> c \<notin> set (files u2))"
          by (simp_all add: deleted_with_children_def)
        then have "blobs_gone ?u3 r"
          using shrinks_blobs_gone [OF shrinks_delete_file] by blast
        moreover have "set (files ?u3) \<subseteq> set (files u2)"
          by (rule shrinks_files [OF shrinks_delete_file])
        ultimately show ?thesis using ch by blast
      next
        case True
        with r(2) have "has_key (DirName fi) (BaseName fi) r"
          by (auto simp: delete_file_def)
        then have "r = fi"
          using primary_key_same [OF s(1) r(1) s(3)] by (simp add: has_key_def)
        have "blobs_gone ?u3 fi"
          by (rule shrinks_blobs_gone [OF sh13 bg1])
        moreover have "c \<notin> set (files ?u3)" if "IsDir fi" "DirName c = Path fi" for c
        proof
          assume "c \<in> set (files ?u3)"
          with shrinks_files [OF shrinks_delete_file] have "c \<in> set (files u2)" by blast
          with that(2) have "c \<in> set (select_children u2 (Path fi))"
            by (simp add: select_children_def)
          with empty [OF that(1)] show False by simp
        qed
        ultimately show ?thesis using \<open>r = fi\<close> by blast
      qed
    qed
  qed
  have within: "has_key (DirName fi) (BaseName fi) r \<or> below u fi r"
    if r: "r \<in> set (files u)" "r \<notin> set (files ?u3)" for r
  proof (cases "r \<in> set (files u2)")
    case True
    with r(2) show ?thesis by (auto simp: delete_file_def)
  next
    case False
    from r(1) f1 have r1: "r \<in> set (files u1)" by simp
    show ?thesis
    proof (cases "IsDir fi")
      case nd: False
      with u2(1) have "u2 = u1" by simp
      with False r1 show ?thesis by simp
    next
      case dir: True
      with u2(1) have lp: "for_rows f ?cs u1 = Some (None, u2)" by simp
      from for_rows_within [OF IH lp r1] False obtain c where
        c: "c \<in> set ?cs" "has_key (DirName c) (BaseName c) r \<or> below u1 c r"
        by auto
      from c(1) f1 have cu: "c \<in> set (files u)" "DirName c = Path fi"
        by (simp_all add: select_children_def)
      from c(2) show ?thesis
      proof
        assume "has_key (DirName c) (BaseName c) r"
        then have "DirName r = Path fi" using cu(2) by (simp add: has_key_def)
        from below.child [OF dir r(1) this] show ?thesis by simp
      next
        assume "below u1 c r"
        from below_mono [OF this] f1 have "below u c r" by simp
        from below_step [OF this dir cu] show ?thesis by simp
      qed
    qed
  qed
  have "\<forall>r \<in> set (files u). r \<notin> set (files (snd y)) \<longrightarrow>
          has_key (DirName fi) (BaseName fi) r \<or> below u fi r"
    using within u2(2) by simp
  moreover have "\<forall>s. primary_key s \<and> shrinks s u \<and> fi \<in> set (files s) \<and> deleted_with_children s u \<longrightarrow>
          deleted_with_children s (snd y)"
    using closed u2(2) by simp
  moreover have "IsDir fi \<longrightarrow>
        (\<exists>u2. snd y = delete_file u2 (DirName fi) (BaseName fi) \<and> select_children u2 (Path fi) = [])"
    using empty u2(2) by auto
  ultimately show "deleted_below u fi y"
    unfolding deleted_below_def using d by blast
qed

lemma select_file_in_files: "select_file s d b = Some r \<Longrightarrow> r \<in> set (files s)"
  by (auto simp: select_file_def find_Some_iff)


text \<open>What a recursive deletion that begins with a row of the table has removed: the row
  and the rows below it, with their objects, and no other row.\<close>

lemma deleteDownwards_removes:
  assumes "deleteDownwards s fi = Some y" and "primary_key s" and "fi \<in> set (files s)"
  shows "fst y = None" and "shrinks s (snd y)"
    and "select_file (snd y) (DirName fi) (BaseName fi) = None"
    and "deleted_with_children s (snd y)"
    and "\<And>r. r \<in> set (files s) \<Longrightarrow> r \<notin> set (files (snd y)) \<Longrightarrow> r = fi \<or> below s fi r"
    and "\<And>r. below s fi r \<Longrightarrow> r \<in> set (files s) \<and> r \<notin> set (files (snd y))"
proof -
  note d = deleteDownwards_deleted_below [OF assms(1)]
  from d show e: "fst y = None" and sh: "shrinks s (snd y)"
    and own: "select_file (snd y) (DirName fi) (BaseName fi) = None"
    unfolding deleted_below_def deleted_def by simp_all
  from d have cl: "\<forall>t. primary_key t \<and> shrinks t s \<and> fi \<in> set (files t) \<and> deleted_with_children t s \<longrightarrow>
               deleted_with_children t (snd y)"
    and w: "\<forall>r \<in> set (files s). r \<notin> set (files (snd y)) \<longrightarrow>
              has_key (DirName fi) (BaseName fi) r \<or> below s fi r"
    unfolding deleted_below_def by simp_all
  have "deleted_with_children s s" by (simp add: deleted_with_children_def)
  with cl assms(2,3) shrinks_refl show closed: "deleted_with_children s (snd y)" by blast
  show "r = fi \<or> below s fi r" if r: "r \<in> set (files s)" "r \<notin> set (files (snd y))" for r
  proof -
    from w r have "has_key (DirName fi) (BaseName fi) r \<or> below s fi r" by blast
    then show ?thesis
      using primary_key_same [OF assms(2) r(1) assms(3)] by (auto simp: has_key_def)
  qed
  have fout: "fi \<notin> set (files (snd y))"
    by (rule select_file_None_notin [OF own])
  have kids: "c \<notin> set (files (snd y))"
    if "r \<in> set (files s)" "r \<notin> set (files (snd y))" "IsDir r" "c \<in> set (files s)" "DirName c = Path r"
    for r c
    using closed that unfolding deleted_with_children_def by blast
  show "r \<in> set (files s) \<and> r \<notin> set (files (snd y))" if "below s fi r" for r
    using that
  proof (induction rule: below.induct)
    case (child r)
    then show ?case using kids [OF assms(3) fout] by blast
  next
    case (deeper q r)
    then show ?case using kids [of q r] by blast
  qed
qed





subsection \<open>C8: every row has its parent\<close>

lemma has_parent_append:
  assumes "has_parent s r" and "files s' = files s @ extra"
  shows "has_parent s' r"
proof (cases "DirName r = ''/''")
  case True
  then show ?thesis by (simp add: has_parent_def)
next
  case False
  with assms(1) obtain q where "select_file s (Dir (DirName r)) (Base (DirName r)) = Some q"
    by (auto simp: has_parent_def)
  from select_file_append [OF this assms(2)] show ?thesis
    by (simp add: has_parent_def)
qed

lemma mkdirAll_parents_aux:
  assumes "mkdirAll s p = Some y"
  shows "(\<exists>extra. files (snd y) = files s @ extra) \<and>
         (p \<noteq> [] \<longrightarrow> (p = ''/'' \<or> select_file (snd y) (Dir p) (Base p) \<noteq> None) \<and>
            (\<forall>r \<in> set (files (snd y)). r \<in> set (files s) \<or> has_parent (snd y) r))"
proof (rule mkdirAll.raw_induct [OF _ assms])
  fix f s fullPath y
  assume IH: "\<And>s p y. f s p = Some y \<Longrightarrow>
         (\<exists>extra. files (snd y) = files s @ extra) \<and>
         (p \<noteq> [] \<longrightarrow> (p = ''/'' \<or> select_file (snd y) (Dir p) (Base p) \<noteq> None) \<and>
            (\<forall>r \<in> set (files (snd y)). r \<in> set (files s) \<or> has_parent (snd y) r))"
    and eq: "(if fullPath = ''/'' \<or> fullPath = [] then Some (None, s)
              else f (insert_dir s (Dir fullPath) (Base fullPath)) (Dir fullPath)) = Some y"
  show "(\<exists>extra. files (snd y) = files s @ extra) \<and>
         (fullPath \<noteq> [] \<longrightarrow> (fullPath = ''/'' \<or> select_file (snd y) (Dir fullPath) (Base fullPath) \<noteq> None) \<and>
            (\<forall>r \<in> set (files (snd y)). r \<in> set (files s) \<or> has_parent (snd y) r))"
  proof (cases "fullPath = ''/'' \<or> fullPath = []")
    case True
    with eq have "y = (None, s)" by auto
    then show ?thesis using True by auto
  next
    case False
    let ?d = "Dir fullPath"
    let ?s1 = "insert_dir s ?d (Base fullPath)"
    from False eq have m: "f ?s1 ?d = Some y" by auto
    from IH [OF m] obtain extra where x: "files (snd y) = files ?s1 @ extra"
      and up: "?d = ''/'' \<or> select_file (snd y) (Dir ?d) (Base ?d) \<noteq> None"
      and new: "\<forall>r \<in> set (files (snd y)). r \<in> set (files ?s1) \<or> has_parent (snd y) r"
      using Dir_nonempty [of fullPath] by blast
    obtain r where r: "select_file ?s1 ?d (Base fullPath) = Some r"
      using select_file_insert_dir_same by fastforce
    have own: "select_file (snd y) ?d (Base fullPath) \<noteq> None"
      using select_file_append [OF r x] by simp
    have s1: "r \<in> set (files s) \<or> has_parent (snd y) r" if "r \<in> set (files ?s1)" for r
    proof (cases "r \<in> set (files s)")
      case False
      with that have "DirName r = ?d"
        by (auto simp: insert_dir_def split: if_splits)
      then show ?thesis using up by (simp add: has_parent_def)
    qed simp
    obtain extra1 where "files ?s1 = files s @ extra1"
      using insert_dir_files by blast
    then have "files (snd y) = files s @ (extra1 @ extra)"
      using x by simp
    then have "\<exists>extra. files (snd y) = files s @ extra" by blast
    then show ?thesis
      using own new s1 by blast
  qed
qed

lemma select_file_upsert_other:
  "(d, b) \<noteq> (DirName fi, BaseName fi) \<Longrightarrow> select_file (upsert_file s fi) d b = select_file s d b"
proof -
  assume a: "(d, b) \<noteq> (DirName fi, BaseName fi)"
  have "find (has_key d b) (map (\<lambda>r. if has_key (DirName fi) (BaseName fi) r then fi else r) xs)
          = find (has_key d b) xs" for xs
    using a by (induction xs) (auto simp: has_key_def)
  then show ?thesis
    using a by (auto simp: upsert_file_def select_file_def find_append_eq has_key_def split: option.splits)
qed

lemma upsert_file_rows:
  "r \<in> set (files (upsert_file s fi)) \<Longrightarrow> r = fi \<or> r \<in> set (files s)"
  by (auto simp: upsert_file_def split: if_splits)

text \<open>What \<^verbatim>\<open>writeFileInfo\<close> leaves: the row written, markers at its ancestors, every
  other row as it was, and every row with its parent if that was so before.\<close>

lemma writeFileInfo_ensures:
  assumes "writeFileInfo s fi = Some (None, s')" and "DirName fi = Dir p" and "BaseName fi = Base p"
  shows "(\<forall>a. ancestor a p \<longrightarrow> a = ''/'' \<or> readFileInfo s' a \<noteq> None) \<and>
         only_markers_added s [(Dir p, Base p)] s' \<and>
         (parents_exist s \<longrightarrow> parents_exist s')"
proof -
  let ?fi = "if ModifiedAt fi = 0 then fi\<lparr>ModifiedAt := clock s\<rparr> else fi"
  let ?s1 = "upsert_file s ?fi"
  have k: "DirName ?fi = Dir p" "BaseName ?fi = Base p" using assms(2,3) by auto
  from assms have m: "mkdirAll ?s1 (Dir p) = Some (None, s')"
    by (auto simp: writeFileInfo_def Let_def)
  from mkdirAll_frame [OF m] obtain extra where
    x: "files s' = files ?s1 @ extra" "\<forall>r \<in> set extra. is_marker r"
    by auto
  from mkdirAll_parents_aux [OF m] have
    up: "Dir p = ''/'' \<or> select_file s' (Dir (Dir p)) (Base (Dir p)) \<noteq> None"
    and new: "\<forall>r \<in> set (files s'). r \<in> set (files ?s1) \<or> has_parent s' r"
    using Dir_nonempty [of p] by auto
  have anc: "\<forall>a. ancestor a p \<longrightarrow> a = ''/'' \<or> readFileInfo s' a \<noteq> None"
    using mkdirAll_ancestors [OF m] by (simp add: readFileInfo_def)
  have keep: "select_file s' d b = Some r" if "select_file s d b = Some r" "(d, b) \<noteq> (Dir p, Base p)" for d b r
  proof -
    have "(d, b) \<noteq> (DirName ?fi, BaseName ?fi)" using that(2) unfolding k .
    from select_file_upsert_other [OF this, of s] that(1) have "select_file ?s1 d b = Some r"
      by simp
    from select_file_append [OF this x(1)] show ?thesis .
  qed
  have rows: "r \<in> set (files s) \<or> (DirName r, BaseName r) = (Dir p, Base p) \<or> is_marker r"
    if "r \<in> set (files s')" for r
  proof -
    from that x(1) consider "r \<in> set (files ?s1)" | "r \<in> set extra" by auto
    then show ?thesis
    proof cases
      case 1
      from upsert_file_rows [OF this] show ?thesis using k by (metis (full_types))
    next
      case 2
      then show ?thesis using x(2) by blast
    qed
  qed
  have oma: "only_markers_added s [(Dir p, Base p)] s'"
    unfolding only_markers_added_def using keep rows by simp
  have inv: "parents_exist s'" if pe: "parents_exist s"
    unfolding parents_exist_def
  proof
    fix r assume r: "r \<in> set (files s')"
    show "has_parent s' r"
    proof (cases "r \<in> set (files ?s1)")
      case False
      then show ?thesis using new r by blast
    next
      case True
      show ?thesis
      proof (cases "(DirName r, BaseName r) = (Dir p, Base p)")
        case True
        then show ?thesis using up by (simp add: has_parent_def)
      next
        case False
        with upsert_file_rows [OF True] k have "r \<in> set (files s)" by (metis (full_types))
        with pe have hp: "has_parent s r" by (simp add: parents_exist_def)
        show ?thesis
        proof (cases "(Dir (DirName r), Base (DirName r)) = (Dir p, Base p)")
          case True
          have "select_file s' (Dir p) (Base p) \<noteq> None"
            using select_file_append [OF select_file_upsert_same [of s ?fi] x(1)] k by simp
          then show ?thesis using True by (simp add: has_parent_def)
        next
          case False
          show ?thesis
          proof (cases "DirName r = ''/''")
            case True
            then show ?thesis by (simp add: has_parent_def)
          next
            case nr: False
            with hp obtain q where "select_file s (Dir (DirName r)) (Base (DirName r)) = Some q"
              by (auto simp: has_parent_def)
            from keep [OF this False] show ?thesis by (simp add: has_parent_def)
          qed
        qed
      qed
    qed
  qed
  show ?thesis using anc oma inv by blast
qed


lemma PutContent_writes:
  assumes "PutContent s p c = Some (None, s')"
  shows "\<exists>t fi t'. files t = files s \<and> DirName fi = Dir p \<and> BaseName fi = Base p \<and>
           writeFileInfo t fi = Some (None, t') \<and> files s' = files t'"
proof (cases "length c > 256")
  case False
  let ?fi = "\<lparr>DirName = Dir p, BaseName = Base p, SizeBytes = int (length c),
              ModifiedAt = 0, Contents = c, Location = []\<rparr>"
  from assms False have "writeFileInfo (put_pre s p) ?fi = Some (None, s')"
    unfolding PutContent_def put_pre(1)
    by (auto simp: maxInlineSizeBytes_def Let_def split: option.splits prod.splits)
  then show ?thesis
    using put_pre(2) [of s p] by (intro exI [of _ "put_pre s p"] exI [of _ ?fi] exI [of _ s']) simp
next
  case True
  let ?loc = "EncodeToString (take 8 (entropy s))"
  let ?fi = "\<lparr>DirName = Dir p, BaseName = Base p, SizeBytes = int (length c),
              ModifiedAt = 0, Contents = [], Location = ?loc\<rparr>"
  let ?s2 = "(put_pre s p)\<lparr>entropy := drop 8 (entropy s)\<rparr>"
  from assms True have en: "8 \<le> length (entropy s)"
    unfolding PutContent_def put_pre(1)
    by (auto simp: maxInlineSizeBytes_def Let_def plusRandLocation_def put_pre split: if_splits)
  then have rnd: "plusRandLocation (put_pre s p) = (Inr ?loc, ?s2)"
    by (simp add: plusRandLocation_def put_pre)
  from assms True obtain s3 where w: "writeFileInfo ?s2 ?fi = Some (None, s3)"
    and s': "s' = snd (swift_Write s3 (prependPrefix (ObjectPrefix s3) (fi_ObjectPath ?fi)) c)"
    unfolding PutContent_def put_pre(1)
    by (auto simp: maxInlineSizeBytes_def Let_def rnd split: option.splits prod.splits)
  have "files s' = files s3" by (simp add: s' swift_Write_def)
  then show ?thesis
    using w put_pre(2) [of s p] by (intro exI [of _ ?s2] exI [of _ ?fi] exI [of _ s3]) simp
qed

lemma Commit_writes:
  assumes "Commit w s = Some (None, w', s')"
  shows "\<exists>t fi. files t = files s \<and> DirName fi = Dir (fullPath w) \<and> BaseName fi = Base (fullPath w) \<and>
           writeFileInfo t fi = Some (None, s')"
proof -
  let ?fi = "\<lparr>DirName = Dir (fullPath w), BaseName = Base (fullPath w), SizeBytes = Size w,
              ModifiedAt = 0, Contents = [], Location = location w\<rparr>"
  let ?t = "swift_WriteSLO s (prependPrefix (ObjectPrefix s) (fi_ObjectPath ?fi)) (w_segments w)"
  from assms have "writeFileInfo ?t ?fi = Some (None, s')"
    by (auto simp: Commit_def Let_def split: if_splits option.splits prod.splits)
  moreover have "files ?t = files s" by (simp add: swift_WriteSLO_def)
  ultimately show ?thesis
    by (intro exI [of _ ?t] exI [of _ ?fi]) simp
qed

lemma by_files:
  assumes "files t = files s" and "files t' = files s'"
  shows "parents_exist t = parents_exist s" "only_markers_added t ks t' = only_markers_added s ks s'"
    "readFileInfo t' a = readFileInfo s' a"
  using assms
  by (simp_all add: parents_exist_def has_parent_def only_markers_added_def select_file_def
      readFileInfo_def)

lemma update_key_rows:
  "r \<in> set (files (snd (update_key s d' b' d b))) \<Longrightarrow>
   r \<in> set (files s) \<or> (DirName r, BaseName r) = (d', b')"
  by (auto simp: update_key_def split: if_splits)

lemma Move_steps:
  assumes "Move s src dst = Some (None, s')"
  obtains fi t where "readFileInfo s src = Some fi"
    "(case readFileInfo s dst of Some fi2 \<Rightarrow> deleteDownwards s fi2 | None \<Rightarrow> Some (None, s)) =
       Some (None, t)"
    "shrinks s t" "select_file t (Dir dst) (Base dst) = None"
    "fst (update_key t (Dir dst) (Base dst) (Dir src) (Base src)) = None"
    "mkdirAll (snd (update_key t (Dir dst) (Base dst) (Dir src) (Base src))) (Dir dst) = Some (None, s')"
proof -
  let ?del = "case readFileInfo s dst of Some fi2 \<Rightarrow> deleteDownwards s fi2 | None \<Rightarrow> Some (None, s)"
  from assms obtain fi where fi: "readFileInfo s src = Some fi"
    by (auto simp: Move_def split: option.splits)
  note k = readFileInfo_key [OF fi]
  from assms fi k have mv: "on_success ?del (\<lambda>s1. on_success
       (Some (update_key s1 (Dir dst) (Base dst) (Dir src) (Base src)))
       (\<lambda>s2. mkdirAll s2 (Dir dst))) = Some (None, s')"
    by (simp add: Move_def)
  from on_success_Some [OF mv] obtain t where t: "?del = Some (None, t)"
    and rest: "on_success (Some (update_key t (Dir dst) (Base dst) (Dir src) (Base src)))
       (\<lambda>s2. mkdirAll s2 (Dir dst)) = Some (None, s')"
    by auto
  let ?u = "update_key t (Dir dst) (Base dst) (Dir src) (Base src)"
  from on_success_Some [OF rest] obtain s2 where u: "?u = (None, s2)"
    and m: "mkdirAll s2 (Dir dst) = Some (None, s')"
    by auto
  have del: "shrinks s t \<and> select_file t (Dir dst) (Base dst) = None"
  proof (cases "readFileInfo s dst")
    case None
    with t have "t = s" by simp
    then show ?thesis using None by (simp add: shrinks_refl readFileInfo_def)
  next
    case (Some fi2)
    with t have "deleteDownwards s fi2 = Some (None, t)" by simp
    from deleteDownwards_deleted [OF this] readFileInfo_key [OF Some] show ?thesis
      by (simp add: deleted_def)
  qed
  show ?thesis
    using that [OF fi t] del u m by simp
qed

text \<open>Every \<^verbatim>\<open>Move\<close> that returns without error ends in \<^verbatim>\<open>mkdirAll\<close> of the
  directory of the destination, whatever was at the destination.\<close>

lemma Move_ensures:
  assumes "Move s src dst = Some (None, s')"
  shows "(\<forall>a. ancestor a dst \<longrightarrow> a = ''/'' \<or> readFileInfo s' a \<noteq> None) \<and>
         (\<exists>t. (case readFileInfo s dst of Some fi \<Rightarrow> deleteDownwards s fi | None \<Rightarrow> Some (None, s)) =
                Some (None, t) \<and>
              only_markers_added t [(Dir src, Base src), (Dir dst, Base dst)] s')"
proof -
  let ?u = "\<lambda>t. update_key t (Dir dst) (Base dst) (Dir src) (Base src)"
  from Move_steps [OF assms] obtain fi t where fi: "readFileInfo s src = Some fi"
    and t: "(case readFileInfo s dst of Some fi \<Rightarrow> deleteDownwards s fi | None \<Rightarrow> Some (None, s)) =
              Some (None, t)"
    and dn: "select_file t (Dir dst) (Base dst) = None"
    and m: "mkdirAll (snd (?u t)) (Dir dst) = Some (None, s')"
    by blast
  let ?s2 = "snd (?u t)"
  from mkdirAll_frame [OF m] obtain extra where
    x: "files s' = files ?s2 @ extra" "\<forall>r \<in> set extra. is_marker r"
    by auto
  have anc: "\<forall>a. ancestor a dst \<longrightarrow> a = ''/'' \<or> readFileInfo s' a \<noteq> None"
    using mkdirAll_ancestors [OF m] by (simp add: readFileInfo_def)
  have keep: "select_file s' d b = Some r"
    if "select_file t d b = Some r" "(d, b) \<noteq> (Dir src, Base src)" "(d, b) \<noteq> (Dir dst, Base dst)" for d b r
  proof -
    from update_key_other [OF dn that(3), of "Dir src" "Base src"] that(1,2)
    have "select_file ?s2 d b = Some r" by simp
    from select_file_append [OF this x(1)] show ?thesis .
  qed
  have rows: "r \<in> set (files t) \<or> (DirName r, BaseName r) = (Dir dst, Base dst) \<or> is_marker r"
    if "r \<in> set (files s')" for r
  proof -
    from that x(1) consider "r \<in> set (files ?s2)" | "r \<in> set extra" by auto
    then show ?thesis
    proof cases
      case 1
      from update_key_rows [OF this] show ?thesis by blast
    next
      case 2
      then show ?thesis using x(2) by blast
    qed
  qed
  have "only_markers_added t [(Dir src, Base src), (Dir dst, Base dst)] s'"
    unfolding only_markers_added_def using keep rows by auto
  with anc t show ?thesis by blast
qed

lemma select_file_present:
  "r \<in> set (files s) \<Longrightarrow> select_file s (DirName r) (BaseName r) \<noteq> None"
  using select_file_None_notin by blast

text \<open>\<^verbatim>\<open>Move\<close> keeps the invariant when no row has the source as its parent and no
  file below the row at the destination has a row under it: the rows that the deletion of
  the destination removes are then the rows whose parents it removes, but for the children
  of the destination, which get the moved row as their parent.\<close>

lemma Move_keeps_parents:
  assumes mv: "Move s src dst = Some (None, s')"
    and pk: "primary_key s" and cd: "clean_dirs s" and pe: "parents_exist s"
    and nc: "\<forall>r \<in> set (files s). (Dir (DirName r), Base (DirName r)) \<noteq> (Dir src, Base src)"
    and leaf: "\<forall>fi q r. readFileInfo s dst = Some fi \<and> below s fi q \<and> \<not> IsDir q \<and> r \<in> set (files s) \<longrightarrow>
                 DirName r \<noteq> Path q"
  shows "parents_exist s'"
proof -
  let ?u = "\<lambda>t. update_key t (Dir dst) (Base dst) (Dir src) (Base src)"
  from Move_steps [OF mv] obtain fi t where fi: "readFileInfo s src = Some fi"
    and t: "(case readFileInfo s dst of Some fi \<Rightarrow> deleteDownwards s fi | None \<Rightarrow> Some (None, s)) =
              Some (None, t)"
    and sh: "shrinks s t"
    and dn: "select_file t (Dir dst) (Base dst) = None"
    and m: "mkdirAll (snd (?u t)) (Dir dst) = Some (None, s')"
    by blast
  let ?s2 = "snd (?u t)"
  from mkdirAll_frame [OF m] obtain extra where x: "files s' = files ?s2 @ extra"
    by auto
  from mkdirAll_parents_aux [OF m] have
    up: "Dir dst = ''/'' \<or> select_file s' (Dir (Dir dst)) (Base (Dir dst)) \<noteq> None"
    and new: "\<forall>r \<in> set (files s'). r \<in> set (files ?s2) \<or> has_parent s' r"
    using Dir_nonempty [of dst] by auto
  note k = readFileInfo_key [OF fi]
  have fin: "fi \<in> set (files s)"
    using fi by (simp add: readFileInfo_def select_file_in_files)
  have par: "select_file s' (Dir (DirName r)) (Base (DirName r)) \<noteq> None"
    if r: "r \<in> set (files t)" "DirName r \<noteq> ''/''" for r
  proof -
    let ?d = "Dir (DirName r)" and ?b = "Base (DirName r)"
    from r(1) shrinks_files [OF sh] have rs: "r \<in> set (files s)" by blast
    with pe r(2) obtain q where q: "select_file s ?d ?b = Some q"
      by (auto simp: parents_exist_def has_parent_def)
    note qk = select_file_key [OF q]
    have qin: "q \<in> set (files s)" by (rule select_file_in_files [OF q])
    have nsrc: "(?d, ?b) \<noteq> (Dir src, Base src)" using nc rs by blast
    have pq: "Path q = DirName r"
      using cd rs r(2) qk by (auto simp: clean_dirs_def Path_def)
    show ?thesis
    proof (cases "q \<in> set (files t)")
      case True
      from select_file_present [OF True] qk obtain q' where q': "select_file t ?d ?b = Some q'"
        by auto
      with dn have "(?d, ?b) \<noteq> (Dir dst, Base dst)" by auto
      from update_key_other [OF dn this, of "Dir src" "Base src"] q' nsrc
      have "select_file ?s2 ?d ?b = Some q'" by simp
      from select_file_append [OF this x] show ?thesis by simp
    next
      case False
      with qin t obtain fi2 where f2: "readFileInfo s dst = Some fi2"
        and dd: "deleteDownwards s fi2 = Some (None, t)"
        by (cases "readFileInfo s dst") auto
      have f2in: "fi2 \<in> set (files s)"
        using f2 by (simp add: readFileInfo_def select_file_in_files)
      note rm = deleteDownwards_removes [OF dd pk f2in]
      from rm(4) qin False rs r(1) pq have isfile: "\<not> IsDir q"
        unfolding deleted_with_children_def by auto
      from rm(5) [OF qin] False consider "q = fi2" | "below s fi2 q" by auto
      then show ?thesis
      proof cases
        case 2
        from leaf [rule_format, of fi2 q r] f2 2 isfile rs have "DirName r \<noteq> Path q"
          by simp
        with pq show ?thesis by simp
      next
        case 1
        with isfile dd have "t = delete_file (snd (deleteBlobs s fi2)) (DirName fi2) (BaseName fi2)"
          by (simp add: deleteDownwards_file)
        then have ft: "files t = filter (\<lambda>r. \<not> has_key (DirName fi2) (BaseName fi2) r) (files s)"
          by (simp add: delete_file_def deleteBlobs_frame)
        have dk: "(?d, ?b) = (Dir dst, Base dst)"
          using 1 qk readFileInfo_key [OF f2] by simp
        with nsrc k have "\<not> has_key (DirName fi2) (BaseName fi2) fi"
          using readFileInfo_key [OF f2] by (auto simp: has_key_def)
        with fin ft have "fi \<in> set (files t)" by simp
        from select_file_present [OF this] k obtain fi' where
          "select_file t (Dir src) (Base src) = Some fi'" by auto
        from update_key_moved [OF this dn] have "select_file ?s2 (Dir dst) (Base dst) \<noteq> None"
          by simp
        then obtain z where "select_file ?s2 (Dir dst) (Base dst) = Some z" by auto
        from select_file_append [OF this x] dk show ?thesis by simp
      qed
    qed
  qed
  show ?thesis
    unfolding parents_exist_def
  proof
    fix r assume r: "r \<in> set (files s')"
    show "has_parent s' r"
    proof (cases "r \<in> set (files ?s2)")
      case False
      then show ?thesis using new r by blast
    next
      case True
      from update_key_rows [OF True] consider "r \<in> set (files t)"
        | "(DirName r, BaseName r) = (Dir dst, Base dst)" by blast
      then show ?thesis
      proof cases
        case 2
        then show ?thesis using up by (simp add: has_parent_def)
      next
        case 1
        then show ?thesis using par [OF 1] by (auto simp: has_parent_def)
      qed
    qed
  qed
qed

text \<open>The rows of the example tables.\<close>

lemma deep_files_rows:
  "files deep_files =
     [\<lparr>DirName = ''/d/e'', BaseName = ''f'', SizeBytes = 257, ModifiedAt = 100,
        Contents = [], Location = ''0102030405060708''\<rparr>,
      \<lparr>DirName = ''/d'', BaseName = ''e'', SizeBytes = - 1, ModifiedAt = 100,
        Contents = [], Location = []\<rparr>,
      \<lparr>DirName = ''/'', BaseName = ''d'', SizeBytes = - 1, ModifiedAt = 100,
        Contents = [], Location = []\<rparr>,
      \<lparr>DirName = ''/d'', BaseName = ''g'', SizeBytes = 1, ModifiedAt = 100,
        Contents = [1], Location = []\<rparr>,
      \<lparr>DirName = ''/'', BaseName = ''h'', SizeBytes = 1, ModifiedAt = 100,
        Contents = [2], Location = []\<rparr>]"
  "ObjectPrefix deep_files = ''pre''"
  "objects deep_files ''pre/0102030405060708/content'' = Some (Plain (replicate 257 7))"
  by code_simp+

lemma deep_files_paths:
  "Dir ''/d'' = ''/''" "Base ''/d'' = ''d''" "Dir ''/d/e'' = ''/d''" "Base ''/d/e'' = ''e''"
  "Dir ''/d/e/f'' = ''/d/e''" "Base ''/d/e/f'' = ''f''" "Dir ''/h'' = ''/''" "Base ''/h'' = ''h''"
  "Dir ''/d/g'' = ''/d''" "Base ''/d/g'' = ''g''"
  "Join ''/'' ''d'' = ''/d''" "Join ''/d'' ''e'' = ''/d/e''" "Join ''/d/e'' ''f'' = ''/d/e/f''"
  "Join ''/d'' ''g'' = ''/d/g''" "Join ''/'' ''h'' = ''/h''"
  by code_simp+

text \<open>C8, as claimed, fails for \<^verbatim>\<open>Move\<close>: after a directory with a child is moved,
  the child has no parent; and after a file is moved onto a directory below which a file has
  a row under it, that row has no parent, for the deletion of the directory does not reach
  it.\<close>

theorem Move_directory_breaks_parents_counterexample:
  "parents_exist nested_file \<and> succeeded (Move nested_file ''/d'' ''/e'') \<and>
   \<not> parents_exist (state_of (Move nested_file ''/d'' ''/e'')) \<and>
   parents_exist file_over_marker \<and> succeeded (Move file_over_marker ''/s'' ''/x'') \<and>
   \<not> parents_exist (state_of (Move file_over_marker ''/s'' ''/x''))"
  by code_simp


text \<open>C8, amended. When \<^verbatim>\<open>PutContent\<close>, \<^verbatim>\<open>Commit\<close> or \<^verbatim>\<open>Move\<close> has returned
  without error, a row exists at every ancestor of the path written or moved to, up to the
  root, whatever was at that path; the rows at other keys are as they were when the
  ancestors were ensured (for \<^verbatim>\<open>Move\<close>, as the deletion of the destination has left
  them, the key of the source apart), and the new rows at other keys are markers, of size
  -1. \<^verbatim>\<open>PutContent\<close> and \<^verbatim>\<open>Commit\<close> keep the invariant that every row has its
  parent. \<^verbatim>\<open>Move\<close> keeps it, in a table with a primary key and clean directories, when
  no row has the source as its parent and no file below the row at the destination has a
  row under it.\<close>

theorem ancestors_ensured:
  "(PutContent s p c = Some (None, s1) \<longrightarrow>
      (\<forall>a. ancestor a p \<longrightarrow> a = ''/'' \<or> readFileInfo s1 a \<noteq> None) \<and>
      only_markers_added s [(Dir p, Base p)] s1 \<and>
      (parents_exist s \<longrightarrow> parents_exist s1)) \<and>
   (Commit w s = Some (None, w', s2) \<longrightarrow>
      (\<forall>a. ancestor a (fullPath w) \<longrightarrow> a = ''/'' \<or> readFileInfo s2 a \<noteq> None) \<and>
      only_markers_added s [(Dir (fullPath w), Base (fullPath w))] s2 \<and>
      (parents_exist s \<longrightarrow> parents_exist s2)) \<and>
   (Move s src dst = Some (None, s3) \<longrightarrow>
      (\<forall>a. ancestor a dst \<longrightarrow> a = ''/'' \<or> readFileInfo s3 a \<noteq> None) \<and>
      (\<exists>t. (case readFileInfo s dst of Some fi \<Rightarrow> deleteDownwards s fi | None \<Rightarrow> Some (None, s)) =
             Some (None, t) \<and>
           only_markers_added t [(Dir src, Base src), (Dir dst, Base dst)] s3) \<and>
      (primary_key s \<and> clean_dirs s \<and> parents_exist s \<and>
       (\<forall>r \<in> set (files s). (Dir (DirName r), Base (DirName r)) \<noteq> (Dir src, Base src)) \<and>
       (\<forall>fi q r. readFileInfo s dst = Some fi \<and> below s fi q \<and> \<not> IsDir q \<and> r \<in> set (files s) \<longrightarrow>
          DirName r \<noteq> Path q) \<longrightarrow>
       parents_exist s3))"
proof (intro conjI impI)
  assume a: "PutContent s p c = Some (None, s1)"
  from PutContent_writes [OF a] obtain t fi t' where
    t: "files t = files s" "DirName fi = Dir p" "BaseName fi = Base p"
      "writeFileInfo t fi = Some (None, t')" "files t' = files s1"
    by metis
  note e = writeFileInfo_ensures [OF t(4,2,3)]
  note b = by_files [OF t(1,5)]
  show "\<forall>a. ancestor a p \<longrightarrow> a = ''/'' \<or> readFileInfo s1 a \<noteq> None"
    using e b(3) by simp
  show "only_markers_added s [(Dir p, Base p)] s1"
    using e b(2) by simp
  show "parents_exist s1" if "parents_exist s"
    using e that b(1) by_files(1) [OF t(5) refl] by simp
next
  assume a: "Commit w s = Some (None, w', s2)"
  from Commit_writes [OF a] obtain t fi where
    t: "files t = files s" "DirName fi = Dir (fullPath w)" "BaseName fi = Base (fullPath w)"
      "writeFileInfo t fi = Some (None, s2)"
    by blast
  note e = writeFileInfo_ensures [OF t(4,2,3)]
  note b = by_files [OF t(1) refl]
  show "\<forall>a. ancestor a (fullPath w) \<longrightarrow> a = ''/'' \<or> readFileInfo s2 a \<noteq> None"
    using e by simp
  show "only_markers_added s [(Dir (fullPath w), Base (fullPath w))] s2"
    using e b(2) by simp
  show "parents_exist s2" if "parents_exist s"
    using e that b(1) by simp
next
  assume m: "Move s src dst = Some (None, s3)"
  note e = Move_ensures [OF m]
  show "\<forall>a. ancestor a dst \<longrightarrow> a = ''/'' \<or> readFileInfo s3 a \<noteq> None"
    using e by simp
  show "\<exists>t. (case readFileInfo s dst of Some fi \<Rightarrow> deleteDownwards s fi | None \<Rightarrow> Some (None, s)) =
             Some (None, t) \<and>
           only_markers_added t [(Dir src, Base src), (Dir dst, Base dst)] s3"
    using e by simp
  show "parents_exist s3"
    if "primary_key s \<and> clean_dirs s \<and> parents_exist s \<and>
       (\<forall>r \<in> set (files s). (Dir (DirName r), Base (DirName r)) \<noteq> (Dir src, Base src)) \<and>
       (\<forall>fi q r. readFileInfo s dst = Some fi \<and> below s fi q \<and> \<not> IsDir q \<and> r \<in> set (files s) \<longrightarrow>
          DirName r \<noteq> Path q)"
    using Move_keeps_parents [OF m] that by blast
qed


theorem ancestors_ensured_witness:
  "parents_exist two_files \<and>
   succeeded (PutContent two_files ''/x/y'' [9]) \<and>
   parents_exist (state_of (PutContent two_files ''/x/y'' [9])) \<and>
   only_markers_added two_files [(''/x'', ''y'')] (state_of (PutContent two_files ''/x/y'' [9])) \<and>
   fst (the (Commit (fst (after_write (new_writer two_files ''/m/n'' False) [1]))
                    (snd (after_write (new_writer two_files ''/m/n'' False) [1])))) = None \<and>
   parents_exist (snd (after_commit (after_write (new_writer two_files ''/m/n'' False) [1]))) \<and>
   primary_key deep_files \<and> clean_dirs deep_files \<and> parents_exist deep_files \<and>
   map_sum id IsDir (Stat deep_files ''/d'') = Inr True \<and>
   succeeded (Move deep_files ''/h'' ''/d'') \<and>
   parents_exist (state_of (Move deep_files ''/h'' ''/d'')) \<and>
   map_sum id IsDir (Stat (state_of (Move deep_files ''/h'' ''/d'')) ''/d'') = Inr False"
proof -
  let ?put = "PutContent two_files ''/x/y'' [9]"
  let ?ws = "after_write (new_writer two_files ''/m/n'' False) [1]"
  let ?com = "Commit (fst ?ws) (snd ?ws)"
  let ?mv = "Move deep_files ''/h'' ''/d''"
  note fs = deep_files_rows(1) and k = deep_files_paths
  have pe: "parents_exist two_files"
    by code_simp
  have kx: "Dir ''/x/y'' = ''/x''" "Base ''/x/y'' = ''y''"
    by code_simp+
  have a: "succeeded ?put"
    by code_simp
  have b: "?com \<noteq> None" "fst (the ?com) = None" "fullPath (fst ?ws) = ''/m/n''"
    by code_simp+
  then have b': "?com = Some (None, fst (snd (the ?com)), snd (snd (the ?com)))"
    by (metis option.collapse prod.collapse)
  have c: "succeeded ?mv" "map_sum id IsDir (Stat deep_files ''/d'') = Inr True"
    "map_sum id IsDir (Stat (state_of ?mv) ''/d'') = Inr False"
    by code_simp+
  have h: "primary_key deep_files" "clean_dirs deep_files" "parents_exist deep_files"
    "\<forall>r \<in> set (files deep_files). (Dir (DirName r), Base (DirName r)) \<noteq> (Dir ''/h'', Base ''/h'')"
    "\<forall>q \<in> set (files deep_files). \<not> IsDir q \<longrightarrow> (\<forall>r \<in> set (files deep_files). DirName r \<noteq> Path q)"
    unfolding primary_key_def clean_dirs_def parents_exist_def fs by code_simp+
  have leaf: "\<forall>fi q r. readFileInfo deep_files ''/d'' = Some fi \<and> below deep_files fi q \<and> \<not> IsDir q \<and>
                r \<in> set (files deep_files) \<longrightarrow> DirName r \<noteq> Path q"
    using h(5) below_in_files by blast
  have pw: "parents_exist (snd ?ws)"
    by code_simp
  have a': "?put = Some (None, state_of ?put)" and c': "?mv = Some (None, state_of ?mv)"
    using succeededD [OF a] succeededD [OF c(1)] by simp_all
  have 1: "parents_exist (state_of ?put) \<and>
      only_markers_added two_files [(Dir ''/x/y'', Base ''/x/y'')] (state_of ?put)"
    using ancestors_ensured [where s = two_files and p = "''/x/y''" and c = "[9]"
        and ?s1.0 = "state_of ?put"] a' pe by blast
  have 2: "parents_exist (snd (snd (the ?com)))"
    using ancestors_ensured [where s = "snd ?ws" and w = "fst ?ws" and w' = "fst (snd (the ?com))"
        and ?s2.0 = "snd (snd (the ?com))"]
      b' pw by blast
  have 3: "parents_exist (state_of ?mv)"
    using ancestors_ensured [where s = deep_files and src = "''/h''" and dst = "''/d''"
        and ?s3.0 = "state_of ?mv"] c' h(1,2,3,4) leaf
    by blast
  show ?thesis
    using pe a b(2) c h(1,2,3) 1 2 3 unfolding kx by (simp add: after_commit_def)
qed


subsection \<open>C4: appending to a segmented file\<close>

lemma seg_ObjectPath_Hash: "seg_ObjectPath (sg\<lparr>Hash := h\<rparr>) = seg_ObjectPath sg"
  by (simp add: seg_ObjectPath_def)

lemma Write_appends:
  assumes "uint (Number (next_segment w s buf)) \<le> 2147483647"
    and "length buf < 2 ^ 63"
    and "\<forall>r \<in> set (segments s). row_location r = location w \<longrightarrow>
           row_number r \<noteq> uint (Number (next_segment w s buf))"
  shows "Write w s buf =
    ((length buf, None), w\<lparr>w_segments := w_segments w @ [next_segment w s buf]\<rparr>,
     s\<lparr>objects := (objects s)(seg_ObjectPath (next_segment w s buf) \<mapsto> Plain buf),
       writes := Suc (writes s),
       segments := segments s @ [segment_row (next_segment w s buf)]\<rparr>)"
proof -
  have "unat (word_of_nat (length buf) :: 64 word) = length buf"
    using assms(2) by (simp add: unat_of_nat)
  then have "uint (word_of_nat (length buf) :: 64 word) = int (length buf)"
    by (simp add: uint_nat)
  then have sz: "\<not> uint (word_of_nat (length buf) :: 64 word) > 9223372036854775807"
    using assms(2) by simp
  show ?thesis
  proof (cases "w_segments w = []")
    case True
    then show ?thesis
      using assms(1,3) sz
      by (simp add: Write_def Let_def swift_Write_def insert_segment_def next_segment_def
          segment_row_def seg_ObjectPath_def)
  next
    case False
    then show ?thesis
      using assms(1,3) sz
      by (simp add: Write_def Let_def swift_Write_def insert_segment_def next_segment_def
          segment_row_def seg_ObjectPath_def)
  qed
qed


lemma dropWhile_last:
  "zs \<noteq> [] \<Longrightarrow> \<not> P (last zs) \<Longrightarrow> dropWhile P zs \<noteq> [] \<and> last (dropWhile P zs) = last zs"
  by (induction zs) (auto split: if_splits)

lemma Trim_slash_last:
  assumes "zs \<noteq> []" and "last zs \<noteq> slash"
  shows "Trim_slash zs \<noteq> [] \<and> last (Trim_slash zs) = last zs"
proof -
  let ?u = "dropWhile (\<lambda>x. x = slash) zs"
  from dropWhile_last [of zs "\<lambda>x. x = slash"] assms have u: "?u \<noteq> []" "last ?u = last zs"
    by simp_all
  then have "hd (rev ?u) \<noteq> slash" using assms(2) by (simp add: hd_rev)
  then have "dropWhile (\<lambda>x. x = slash) (rev ?u) = rev ?u"
    using u(1) by (cases "rev ?u") auto
  then show ?thesis using u by (simp add: Trim_slash_def)
qed

lemma manifest_name_last: "last (prependPrefix pre (fi_ObjectPath fi)) = CHR ''t''"
proof -
  have "last (Location fi @ ''/content'') = CHR ''t''" by simp
  then show ?thesis
    using Trim_slash_last [of "Location fi @ ''/content''"]
    by (simp add: prependPrefix_def fi_ObjectPath_def slash_def)
qed

lemma Sprintf_016d_values:
  "Sprintf_016d (sint (1 :: 64 word)) = ''0000000000000001''"
  "Sprintf_016d (sint (2 :: 64 word)) = ''0000000000000002''"
  "Sprintf_016d (sint (3 :: 64 word)) = ''0000000000000003''"
  "Sprintf_016d (sint (4 :: 64 word)) = ''0000000000000004''"
  "Sprintf_016d 1 = ''0000000000000001''"
  "Sprintf_016d 2 = ''0000000000000002''"
  "Sprintf_016d 3 = ''0000000000000003''"
  "Sprintf_016d 4 = ''0000000000000004''"
  by code_simp+

lemma readSegmentInfo_rows:
  assumes "readSegmentInfo s loc = Inr sgs" and "loc \<noteq> []"
  shows "\<forall>sg \<in> set sgs. Prefix sg = ObjectPrefix s \<and> seg_Location sg = loc"
    and "\<forall>r \<in> set (segments s). row_location r = loc \<longrightarrow>
           (word_of_int (row_number r) :: 64 word) \<in> Number ` set sgs"
proof -
  let ?rows = "sort_key row_number (filter (\<lambda>r. row_location r = loc) (segments s))"
  let ?f = "\<lambda>r. \<lparr>Prefix = ObjectPrefix s, seg_Location = loc, Number = word_of_int (row_number r),
                  seg_SizeBytes = word_of_int (row_size_bytes r), Hash = row_hash r\<rparr>"
  from assms have sgs: "sgs = map ?f ?rows"
    by (auto simp: readSegmentInfo_def Let_def split: if_splits)
  show "\<forall>sg \<in> set sgs. Prefix sg = ObjectPrefix s \<and> seg_Location sg = loc"
    unfolding sgs by auto
  show "\<forall>r \<in> set (segments s). row_location r = loc \<longrightarrow>
           (word_of_int (row_number r) :: 64 word) \<in> Number ` set sgs"
  proof (intro ballI impI)
    fix r assume "r \<in> set (segments s)" "row_location r = loc"
    then have "r \<in> set ?rows" by simp
    then have "?f r \<in> set sgs" unfolding sgs by (simp only: set_map) (rule imageI)
    then have "Number (?f r) \<in> Number ` set sgs" by (rule imageI)
    then show "(word_of_int (row_number r) :: 64 word) \<in> Number ` set sgs" by simp
  qed
qed


lemma Size_sum:
  assumes "length d1 + length d2 + length b1 + length b2 < 2 ^ 63"
  shows "sint (0 + word_of_nat (length d1) + word_of_nat (length d2) +
               word_of_nat (length b1) + word_of_nat (length b2) :: 64 word) =
         int (length d1 + length d2 + length b1 + length b2)"
proof -
  let ?n = "length d1 + length d2 + length b1 + length b2"
  have "(0 + word_of_nat (length d1) + word_of_nat (length d2) +
          word_of_nat (length b1) + word_of_nat (length b2) :: 64 word) = word_of_nat ?n"
    by simp
  moreover have "sint (word_of_nat ?n :: 64 word) = int ?n"
  proof -
    have "sint (word_of_nat ?n :: 64 word) = signed_take_bit 63 (int ?n)"
      unfolding signed_of_nat by simp
    also have "\<dots> = int ?n"
      using assms by (intro signed_take_bit_int_eq_self) simp_all
    finally show ?thesis .
  qed
  ultimately show ?thesis by simp
qed

text \<open>C4. Let a row at the rooted path \<open>p\<close> have a location whose segment rows are
  numbered 1 and 2, with the objects \<open>d1\<close> and \<open>d2\<close> of the sizes recorded, so that
  \<^verbatim>\<open>GetContent\<close> returns \<open>d1 @ d2\<close>. Then a writer opened to append keeps the
  location and holds the two segments; two \<^verbatim>\<open>Write\<close> calls return without error,
  number their segments 3 and 4 and add the rows (location, 3) and (location, 4); and
  after \<^verbatim>\<open>Commit\<close>, \<^verbatim>\<open>GetContent\<close> returns \<open>d1 @ d2 @ b1 @ b2\<close>. Every
  \<^verbatim>\<open>Write\<close> numbers its segment 1 when the writer has none, and one more than the
  last otherwise.\<close>

theorem append_two_chunks:
  assumes "rooted_path p"
    and "readFileInfo s p = Some fi" and "Location fi \<noteq> []"
    and "readSegmentInfo s (Location fi) = Inr [sg1, sg2]" and "Number sg1 = 1" and "Number sg2 = 2"
    and "objects s (seg_ObjectPath sg1) = Some (Plain d1)"
    and "objects s (seg_ObjectPath sg2) = Some (Plain d2)"
    and "seg_SizeBytes sg1 = of_nat (length d1)" and "seg_SizeBytes sg2 = of_nat (length d2)"
    and "GetContent s p = Inr (d1 @ d2)"
    and "length d1 + length d2 + length b1 + length b2 < 2 ^ 63"
  shows "(\<exists>w0 w1 w2 w3 s1 s2 s3.
           newPlusWriter s p True = Some (Inr w0, s) \<and> w_segments w0 = [sg1, sg2] \<and>
           location w0 = Location fi \<and>
           Write w0 s b1 = ((length b1, None), w1, s1) \<and>
           Write w1 s1 b2 = ((length b2, None), w2, s2) \<and>
           map Number (w_segments w2) = [1, 2, 3, 4] \<and>
           segments s2 = segments s @
             [\<lparr>row_location = Location fi, row_number = 3, row_size_bytes = int (length b1),
               row_hash = hash_of s b1\<rparr>,
              \<lparr>row_location = Location fi, row_number = 4, row_size_bytes = int (length b2),
               row_hash = hash_of s b2\<rparr>] \<and>
           Commit w2 s2 = Some (None, w3, s3) \<and>
           GetContent s3 p = Inr (d1 @ d2 @ b1 @ b2)) \<and>
         map Number (w_segments (fst (snd (Write wr st buf)))) =
           map Number (w_segments wr) @
             [if w_segments wr = [] then 1 else Number (last (w_segments wr)) + 1]"
proof -
  let ?loc = "Location fi"
  let ?pre = "ObjectPrefix s"
  let ?X = "prependPrefix ?pre ?loc"
  define w0 where "w0 = \<lparr>cancelled = False, closed = False, committed = False,
                          fullPath = p, location = ?loc, w_segments = [sg1, sg2]\<rparr>"
  have nw: "newPlusWriter s p True = Some (Inr w0, s)"
    using assms(2,3,4) by (simp add: newPlusWriter_def Let_def w0_def)
  have sg: "Prefix sg1 = ?pre" "seg_Location sg1 = ?loc" "Prefix sg2 = ?pre" "seg_Location sg2 = ?loc"
    using readSegmentInfo_rows(1) [OF assms(4,3)] by simp_all
  have three: "(3 :: 64 word) \<notin> {1, 2}" and four: "(4 :: 64 word) \<notin> {1, 2}"
    by simp_all
  have no34: "row_number r \<noteq> 3 \<and> row_number r \<noteq> 4"
    if "r \<in> set (segments s)" "row_location r = ?loc" for r
  proof -
    from readSegmentInfo_rows(2) [OF assms(4,3)] that
    have "(word_of_int (row_number r) :: 64 word) \<in> Number ` set [sg1, sg2]" by blast
    then have m: "(word_of_int (row_number r) :: 64 word) \<in> {1, 2}"
      using assms(5,6) by simp
    have "row_number r \<noteq> 3"
    proof
      assume "row_number r = 3"
      with m have "(3 :: 64 word) \<in> {1, 2}" by simp
      with three show False ..
    qed
    moreover have "row_number r \<noteq> 4"
    proof
      assume "row_number r = 4"
      with m have "(4 :: 64 word) \<in> {1, 2}" by simp
      with four show False ..
    qed
    ultimately show ?thesis ..
  qed
  have op1: "seg_ObjectPath sg1 = ?X @ ''/0000000000000001''"
    and op2: "seg_ObjectPath sg2 = ?X @ ''/0000000000000002''"
    using sg assms(5,6) by (simp_all add: seg_ObjectPath_def Sprintf_016d_values)
  have len: "length b1 < 2 ^ 63" "length b2 < 2 ^ 63"
    using assms(12) by simp_all
  \<comment> \<open>the first write\<close>
  define sg3 where "sg3 = next_segment w0 s b1"
  have n3: "Number sg3 = 3" "seg_Location sg3 = ?loc" "Prefix sg3 = ?pre"
    "seg_SizeBytes sg3 = of_nat (length b1)" "Hash sg3 = hash_of s b1"
    using assms(6) by (simp_all add: sg3_def next_segment_def w0_def)
  have op3: "seg_ObjectPath sg3 = ?X @ ''/0000000000000003''"
    using n3 by (simp add: seg_ObjectPath_def Sprintf_016d_values)
  define w1 where "w1 = w0\<lparr>w_segments := w_segments w0 @ [sg3]\<rparr>"
  define s1 where "s1 = s\<lparr>objects := (objects s)(seg_ObjectPath sg3 \<mapsto> Plain b1),
       writes := Suc (writes s), segments := segments s @ [segment_row sg3]\<rparr>"
  have wr1: "Write w0 s b1 = ((length b1, None), w1, s1)"
    unfolding w1_def s1_def sg3_def
  proof (rule Write_appends [OF _ len(1)])
    show "uint (Number (next_segment w0 s b1)) \<le> 2147483647"
      using n3(1) by (simp add: sg3_def)
    show "\<forall>r \<in> set (segments s). row_location r = location w0 \<longrightarrow>
           row_number r \<noteq> uint (Number (next_segment w0 s b1))"
      using no34 n3(1) by (simp add: sg3_def w0_def)
  qed
  \<comment> \<open>the second write\<close>
  define sg4 where "sg4 = next_segment w1 s1 b2"
  have n4: "Number sg4 = 4" "seg_Location sg4 = ?loc" "Prefix sg4 = ?pre"
    "seg_SizeBytes sg4 = of_nat (length b2)" "Hash sg4 = hash_of s b2"
    using n3(1) by (simp_all add: sg4_def next_segment_def w1_def w0_def s1_def)
  have op4: "seg_ObjectPath sg4 = ?X @ ''/0000000000000004''"
    using n4 by (simp add: seg_ObjectPath_def Sprintf_016d_values)
  define w2 where "w2 = w1\<lparr>w_segments := w_segments w1 @ [sg4]\<rparr>"
  define s2 where "s2 = s1\<lparr>objects := (objects s1)(seg_ObjectPath sg4 \<mapsto> Plain b2),
       writes := Suc (writes s1), segments := segments s1 @ [segment_row sg4]\<rparr>"
  have wr2: "Write w1 s1 b2 = ((length b2, None), w2, s2)"
    unfolding w2_def s2_def sg4_def
  proof (rule Write_appends [OF _ len(2)])
    show "uint (Number (next_segment w1 s1 b2)) \<le> 2147483647"
      using n4(1) by (simp add: sg4_def)
    show "\<forall>r \<in> set (segments s1). row_location r = location w1 \<longrightarrow>
           row_number r \<noteq> uint (Number (next_segment w1 s1 b2))"
      using no34 n4(1) n3(1) by (auto simp: sg4_def w1_def w0_def s1_def segment_row_def)
  qed
  have ub: "uint (word_of_nat (length b1) :: 64 word) = int (length b1)"
    "uint (word_of_nat (length b2) :: 64 word) = int (length b2)"
    using len by (simp_all add: uint_nat unat_of_nat)
  have segs: "segments s2 = segments s @
             [\<lparr>row_location = ?loc, row_number = 3, row_size_bytes = int (length b1),
               row_hash = hash_of s b1\<rparr>,
              \<lparr>row_location = ?loc, row_number = 4, row_size_bytes = int (length b2),
               row_hash = hash_of s b2\<rparr>]"
    using n3 n4 ub by (simp add: s2_def s1_def segment_row_def)
  have nums: "map Number (w_segments w2) = [1, 2, 3, 4]"
    using assms(5,6) n3(1) n4(1) by (simp add: w2_def w1_def w0_def)
  \<comment> \<open>the commit\<close>
  let ?n = "length d1 + length d2 + length b1 + length b2"
  define fi' where "fi' = \<lparr>DirName = Dir p, BaseName = Base p, SizeBytes = int ?n,
                           ModifiedAt = 0, Contents = [], Location = ?loc\<rparr>"
  have size: "Size w2 = int ?n"
    using Size_sum [OF assms(12)] assms(9,10) n3(4) n4(4)
    by (simp add: Size_def w2_def w1_def w0_def)
  define t where "t = swift_WriteSLO s2 (prependPrefix (ObjectPrefix s2) (fi_ObjectPath fi'))
                        (w_segments w2)"
  have "rooted_path (Dir p)" using Dir_rooted [OF assms(1)] by simp
  from mkdirAll_returns [OF this] obtain s3 where w: "writeFileInfo t fi' = Some (None, s3)"
    by (auto simp: writeFileInfo_def Let_def fi'_def)
  have com: "Commit w2 s2 = Some (None, w2\<lparr>committed := True\<rparr>, s3)"
    using w size by (simp add: Commit_def Let_def w2_def w1_def w0_def fi'_def t_def)
  from writeFileInfo_row [OF w] have f: "s3 = t\<lparr>files := files s3\<rparr>"
    and row: "readFileInfo s3 p = Some (fi'\<lparr>ModifiedAt := clock t\<rparr>)"
    by (simp_all add: fi'_def readFileInfo_def)
  have pre3: "ObjectPrefix s3 = ?pre" and obj3: "objects s3 = objects t"
    using files_frame(2,4) [OF f] by (simp_all add: t_def swift_WriteSLO_def s2_def s1_def)
  let ?m = "prependPrefix ?pre (fi_ObjectPath fi')"
  have ml: "last ?m = CHR ''t''" by (rule manifest_name_last)
  have mne: "?m \<noteq> ?X @ ''/0000000000000001''" "?m \<noteq> ?X @ ''/0000000000000002''"
    "?m \<noteq> ?X @ ''/0000000000000003''" "?m \<noteq> ?X @ ''/0000000000000004''"
  proof -
    have "last (?X @ ''/0000000000000001'') = CHR ''1''" "last (?X @ ''/0000000000000002'') = CHR ''2''"
      "last (?X @ ''/0000000000000003'') = CHR ''3''" "last (?X @ ''/0000000000000004'') = CHR ''4''"
      by simp_all
    with ml show "?m \<noteq> ?X @ ''/0000000000000001''" "?m \<noteq> ?X @ ''/0000000000000002''"
      "?m \<noteq> ?X @ ''/0000000000000003''" "?m \<noteq> ?X @ ''/0000000000000004''"
      by auto
  qed
  have objs: "objects t ?m = Some (Manifest [?X @ ''/0000000000000001'', ?X @ ''/0000000000000002'',
        ?X @ ''/0000000000000003'', ?X @ ''/0000000000000004''])"
    "objects t (?X @ ''/0000000000000001'') = Some (Plain d1)"
    "objects t (?X @ ''/0000000000000002'') = Some (Plain d2)"
    "objects t (?X @ ''/0000000000000003'') = Some (Plain b1)"
    "objects t (?X @ ''/0000000000000004'') = Some (Plain b2)"
    using mne assms(7,8) op1 op2 op3 op4
    by (simp_all add: t_def swift_WriteSLO_def s2_def s1_def w2_def w1_def w0_def)
  have get: "GetContent s3 p = Inr (d1 @ d2 @ b1 @ b2)"
  proof (cases "?n = 0")
    case True
    then show ?thesis using row by (simp add: GetContent_def Let_def fi'_def IsDir_def)
  next
    case False
    then have "int (length d1) + int (length d2) + int (length b1) + int (length b2) \<noteq> 0"
      by linarith
    then show ?thesis
      using row objs
      by (simp add: GetContent_def Let_def fi'_def IsDir_def pre3 obj3 swift_Reader_def
          fi_ObjectPath_def)
  qed
  have num: "map Number (w_segments (fst (snd (Write wr st buf)))) =
           map Number (w_segments wr) @
             [if w_segments wr = [] then 1 else Number (last (w_segments wr)) + 1]"
    by (simp add: Write_def Let_def swift_Write_def split: prod.splits)
  have ex: "\<exists>w0 w1 w2 w3 s1 s2 s3.
           newPlusWriter s p True = Some (Inr w0, s) \<and> w_segments w0 = [sg1, sg2] \<and>
           location w0 = Location fi \<and>
           Write w0 s b1 = ((length b1, None), w1, s1) \<and>
           Write w1 s1 b2 = ((length b2, None), w2, s2) \<and>
           map Number (w_segments w2) = [1, 2, 3, 4] \<and>
           segments s2 = segments s @
             [\<lparr>row_location = Location fi, row_number = 3, row_size_bytes = int (length b1),
               row_hash = hash_of s b1\<rparr>,
              \<lparr>row_location = Location fi, row_number = 4, row_size_bytes = int (length b2),
               row_hash = hash_of s b2\<rparr>] \<and>
           Commit w2 s2 = Some (None, w3, s3) \<and>
           GetContent s3 p = Inr (d1 @ d2 @ b1 @ b2)"
    using nw wr1 wr2 nums segs com get by (auto simp: w0_def)
  from ex num show ?thesis by (rule conjI)
qed


theorem append_two_chunks_witness:
  "rooted_path ''/a/b'' \<and>
   GetContent segmented_driver ''/a/b'' = Inr [1, 2, 3] \<and>
   map row_number (segments segmented_driver) = [1, 2] \<and>
   map row_number (segments appended_driver) = [1, 2, 3, 4] \<and>
   GetContent appended_driver ''/a/b'' = Inr [1, 2, 3, 4, 5, 6]"
proof -
  let ?s = segmented_driver
  let ?fi = "the (readFileInfo ?s ''/a/b'')"
  let ?sg1 = "\<lparr>Prefix = ''pre'', seg_Location = ''0102030405060708'', Number = 1,
               seg_SizeBytes = 2, Hash = ''etag''\<rparr>"
  let ?sg2 = "\<lparr>Prefix = ''pre'', seg_Location = ''0102030405060708'', Number = 2,
               seg_SizeBytes = 1, Hash = ''etag''\<rparr>"
  have r: "rooted_path ''/a/b''"
    by (simp add: rooted_path_def slash_def)
  have a: "readFileInfo ?s ''/a/b'' \<noteq> None" "Location ?fi \<noteq> []"
    "readSegmentInfo ?s (Location ?fi) = Inr [?sg1, ?sg2]"
    "objects ?s (seg_ObjectPath ?sg1) = Some (Plain [1, 2])"
    "objects ?s (seg_ObjectPath ?sg2) = Some (Plain [3])"
    "GetContent ?s ''/a/b'' = Inr ([1, 2] @ [3])"
    "map row_number (segments ?s) = [1, 2]"
    by code_simp+
  then have f: "readFileInfo ?s ''/a/b'' = Some ?fi" by simp
  have n: "Number ?sg1 = 1" "Number ?sg2 = 2"
    "seg_SizeBytes ?sg1 = of_nat (length [1, 2 :: byte])"
    "seg_SizeBytes ?sg2 = of_nat (length [3 :: byte])"
    "length [1, 2 :: byte] + length [3 :: byte] + length [4 :: byte] + length [5, 6 :: byte] < 2 ^ 63"
    by simp_all
  from append_two_chunks [OF r f a(2) a(3) n(1,2) a(4,5) n(3,4) a(6) n(5)]
  obtain w0 w1 w2 w3 s1 s2 s3 where
    t: "newPlusWriter ?s ''/a/b'' True = Some (Inr w0, ?s)"
      "Write w0 ?s [4] = ((length [4 :: byte], None), w1, s1)"
      "Write w1 s1 [5, 6] = ((length [5, 6 :: byte], None), w2, s2)"
      "segments s2 = segments ?s @
             [\<lparr>row_location = Location ?fi, row_number = 3, row_size_bytes = int (length [4 :: byte]),
               row_hash = hash_of ?s [4]\<rparr>,
              \<lparr>row_location = Location ?fi, row_number = 4, row_size_bytes = int (length [5, 6 :: byte]),
               row_hash = hash_of ?s [5, 6]\<rparr>]"
      "Commit w2 s2 = Some (None, w3, s3)"
      "GetContent s3 ''/a/b'' = Inr ([1, 2] @ [3] @ [4] @ [5, 6])"
    by blast
  have fin: "appended_driver = s3"
    using t(1,2,3,5) by (simp add: appended_driver_def new_writer_def after_write_def after_commit_def)
  have sg: "map row_number (segments appended_driver) = [1, 2, 3, 4]"
    by code_simp
  show ?thesis
    using r a(6,7) sg t(6) by (simp add: fin)
qed


subsection \<open>C5: deleting a directory\<close>




end
